theory Spec2Isabelle
  imports Main "HOL-Library.AList"
begin

section \<open>Strings\<close>

text \<open>
  A TypeScript string is a sequence of UTF-16 code units. The model uses \<^typ>\<open>string\<close>
  (a list of \<^typ>\<open>char\<close>) and reads a character as the code unit of the same number, so it
  covers the strings whose code units are below 256. \<open>length\<close> is the \<open>.length\<close> of the
  source.
\<close>

text \<open>The white space and line terminators of ECMAScript below 256: what \<open>trim\<close>
  strips and what \<open>\s\<close> matches.\<close>

definition isWhiteSpace :: "char \<Rightarrow> bool" where
  "isWhiteSpace c \<longleftrightarrow>
     c \<in> set [CHR 0x09, CHR 0x0A, CHR 0x0B, CHR 0x0C, CHR 0x0D, CHR 0x20, CHR 0xA0]"

text \<open>The class \<open>\w\<close>: ASCII letters, digits and the underscore.\<close>

definition isWordChar :: "char \<Rightarrow> bool" where
  "isWordChar c \<longleftrightarrow>
     (let n = (of_char c :: nat)
      in (48 \<le> n \<and> n \<le> 57) \<or> (65 \<le> n \<and> n \<le> 90) \<or> (97 \<le> n \<and> n \<le> 122) \<or> n = 95)"

text \<open>\<open>toLowerCase\<close> on one code unit below 256: A-Z and the Latin-1 capitals
  (0xC0-0xDE without the multiplication sign 0xD7) move up by 32.\<close>

definition isUpperChar :: "char \<Rightarrow> bool" where
  "isUpperChar c \<longleftrightarrow>
     (let n = (of_char c :: nat)
      in (65 \<le> n \<and> n \<le> 90) \<or> (192 \<le> n \<and> n \<le> 222 \<and> n \<noteq> 215))"

definition toLowerChar :: "char \<Rightarrow> char" where
  "toLowerChar c = (if isUpperChar c then char_of ((of_char c :: nat) + 32) else c)"

definition toLowerCase :: "string \<Rightarrow> string" where
  "toLowerCase s = map toLowerChar s"

definition trim :: "string \<Rightarrow> string" where
  "trim s = rev (dropWhile isWhiteSpace (rev (dropWhile isWhiteSpace s)))"

text \<open>\<open>s.split(/\s+/)\<close>: the pieces between the maximal runs of white space. A run at the
  start or at the end leaves an empty piece there, and the empty string gives one empty
  piece. \<open>cur\<close> is the piece being read, reversed; \<open>inRun\<close> says that the last character
  read was white space.\<close>

fun splitWsAcc :: "string \<Rightarrow> bool \<Rightarrow> string \<Rightarrow> string list" where
  "splitWsAcc cur inRun [] = [rev cur]"
| "splitWsAcc cur inRun (c # cs) =
     (if isWhiteSpace c
      then (if inRun then splitWsAcc cur True cs else rev cur # splitWsAcc [] True cs)
      else splitWsAcc (c # cur) False cs)"

definition splitWs :: "string \<Rightarrow> string list" where
  "splitWs s = splitWsAcc [] False s"

text \<open>\<open>s.split(sep)\<close> for a one-character separator: every occurrence separates.\<close>

fun splitOnAcc :: "char \<Rightarrow> string \<Rightarrow> string \<Rightarrow> string list" where
  "splitOnAcc sep cur [] = [rev cur]"
| "splitOnAcc sep cur (c # cs) =
     (if c = sep then rev cur # splitOnAcc sep [] cs else splitOnAcc sep (c # cur) cs)"

definition splitOn :: "char \<Rightarrow> string \<Rightarrow> string list" where
  "splitOn sep s = splitOnAcc sep [] s"

text \<open>\<open>s.replace(/P+/g, ' ')\<close> for a character class \<open>P\<close>: every maximal run of
  characters of the class becomes one space.\<close>

fun replaceRuns :: "(char \<Rightarrow> bool) \<Rightarrow> bool \<Rightarrow> string \<Rightarrow> string" where
  "replaceRuns P inRun [] = []"
| "replaceRuns P inRun (c # cs) =
     (if P c then (if inRun then replaceRuns P True cs else CHR '' '' # replaceRuns P True cs)
      else c # replaceRuns P False cs)"

text \<open>\<open>s.replace(/c/g, ' ')\<close> for one character \<open>c\<close>.\<close>

definition replaceChar :: "char \<Rightarrow> string \<Rightarrow> string" where
  "replaceChar c s = map (\<lambda>x. if x = c then CHR '' '' else x) s"

section \<open>Keyword extraction (utils/indexer.ts)\<close>

text \<open>\<open>extractKeywordsFromText\<close>: lowercase, delete what is neither a word character nor
  white space nor a hyphen, split on white space, keep the words longer than two
  characters that are not in the stop list.\<close>

definition stopWords :: "string list" where
  "stopWords = [''and'', ''the'', ''for'', ''with'', ''api'']"

definition extractKeywordsFromText :: "string \<Rightarrow> string list" where
  "extractKeywordsFromText text =
     filter (\<lambda>word. length word > 2 \<and> word \<notin> set stopWords)
       (splitWs (filter (\<lambda>c. isWordChar c \<or> isWhiteSpace c \<or> c = CHR ''-'')
          (toLowerCase text)))"

text \<open>\<open>new URL(url)\<close> belongs to the platform. The model takes the parser as a parameter:
  \<open>None\<close> where the constructor throws, the parts of the URL otherwise.\<close>

record URL =
  protocol :: string
  hostname :: string
  pathname :: string

text \<open>The body of \<open>extractKeywordsFromUrl\<close> once the URL is parsed.\<close>

definition extractKeywordsFromPath :: "string \<Rightarrow> string list" where
  "extractKeywordsFromPath p =
     (let path = trim (replaceRuns isWhiteSpace False
                   (replaceChar (CHR ''_'') (replaceChar (CHR ''-'')
                      (replaceRuns (\<lambda>c. c = CHR ''/'') False p))))
      in if path = [] then []
         else filter (\<lambda>word. length word > 2) (splitOn (CHR '' '') (toLowerCase path)))"

definition extractKeywordsFromUrl :: "(string \<Rightarrow> URL option) \<Rightarrow> string \<Rightarrow> string list" where
  "extractKeywordsFromUrl parseUrl url =
     (case parseUrl url of
        None \<Rightarrow> []
      | Some urlObj \<Rightarrow> extractKeywordsFromPath (pathname urlObj))"

section \<open>The search index (utils/indexer.ts)\<close>

record SearchResult =
  url :: string
  title :: string
  description :: string

text \<open>\<open>IndexedDoc\<close> has the three fields of a search result, a category and keywords
  (the field \<open>keywords\<close> is \<open>docKeywords\<close> here).\<close>

record IndexedDoc = SearchResult +
  category :: string
  docKeywords :: "string list"

text \<open>A \<open>Map\<close> of the source is an association list in insertion order with one pair for
  each key: \<open>get\<close> is \<^const>\<open>map_of\<close>, \<open>set\<close> is \<^const>\<open>AList.update\<close> (a present key keeps
  its place, a new key goes to the end), \<open>delete\<close> is \<^const>\<open>AList.delete\<close>.\<close>

record SearchIndex =
  entries :: "IndexedDoc list"
  keywordMap :: "(string \<times> nat list) list"
  categoryMap :: "(string \<times> nat list) list"

text \<open>One \<open>push\<close> onto the posting list of a key, the list created when missing.\<close>

definition pushPosting :: "string \<Rightarrow> nat \<Rightarrow> (string \<times> nat list) list \<Rightarrow> (string \<times> nat list) list" where
  "pushPosting k i m =
     AList.update k ((case map_of m k of None \<Rightarrow> [] | Some l \<Rightarrow> l) @ [i]) m"

definition buildKeywordMap :: "IndexedDoc list \<Rightarrow> (string \<times> nat list) list" where
  "buildKeywordMap es =
     fold (\<lambda>(index, entry) m. fold (\<lambda>keyword. pushPosting keyword index) (docKeywords entry) m)
       (enumerate 0 es) []"

definition buildCategoryMap :: "IndexedDoc list \<Rightarrow> (string \<times> nat list) list" where
  "buildCategoryMap es =
     fold (\<lambda>(index, entry). pushPosting (category entry) index) (enumerate 0 es) []"

text \<open>The index that \<open>buildIndex\<close> makes of its de-duplicated entries.\<close>

definition mkIndex :: "IndexedDoc list \<Rightarrow> SearchIndex" where
  "mkIndex uniqueEntries =
     \<lparr>entries = uniqueEntries,
      keywordMap = buildKeywordMap uniqueEntries,
      categoryMap = buildCategoryMap uniqueEntries\<rparr>"

text \<open>The posting list of a keyword, empty when the keyword is not a key.\<close>

definition postings :: "(string \<times> nat list) list \<Rightarrow> string \<Rightarrow> nat list" where
  "postings km keyword = (case map_of km keyword of None \<Rightarrow> [] | Some indices \<Rightarrow> indices)"

text \<open>The accumulator \<open>scores\<close> of \<open>searchIndexInternal\<close>: one increment for every hit of
  every query keyword, in the order of the query.\<close>

definition bumpScore :: "nat \<Rightarrow> (nat \<times> nat) list \<Rightarrow> (nat \<times> nat) list" where
  "bumpScore index scores =
     AList.update index ((case map_of scores index of None \<Rightarrow> 0 | Some n \<Rightarrow> n) + 1) scores"

definition accumulateScores :: "(string \<times> nat list) list \<Rightarrow> string list \<Rightarrow> (nat \<times> nat) list" where
  "accumulateScores km kws =
     fold (\<lambda>keyword scores.
             (case map_of km keyword of
                None \<Rightarrow> scores
              | Some indices \<Rightarrow> fold bumpScore indices scores))
       kws []"

text \<open>\<open>Array.prototype.sort\<close> is stable; with the comparator \<open>b[1] - a[1]\<close> it is the
  stable sort by descending score, here the insertion sort \<^const>\<open>sort_key\<close> on the negated
  score. \<open>rankedScores\<close> is the sorted array after \<open>slice(0, 10)\<close>.\<close>

definition sortByScore :: "(nat \<times> nat) list \<Rightarrow> (nat \<times> nat) list" where
  "sortByScore scores = sort_key (\<lambda>p. - int (snd p)) scores"

definition rankedScores :: "SearchIndex \<Rightarrow> string \<Rightarrow> (nat \<times> nat) list" where
  "rankedScores idx query =
     take 10 (sortByScore (accumulateScores (keywordMap idx) (extractKeywordsFromText query)))"

text \<open>\<open>entries[index]\<close> is \<open>undefined\<close> out of range: \<open>None\<close>.\<close>

definition entryAt :: "IndexedDoc list \<Rightarrow> nat \<Rightarrow> IndexedDoc option" where
  "entryAt es i = (if i < length es then Some (es ! i) else None)"

definition searchIndexInternal :: "SearchIndex option \<Rightarrow> string \<Rightarrow> IndexedDoc option list" where
  "searchIndexInternal searchIndex query =
     (case searchIndex of
        None \<Rightarrow> []
      | Some idx \<Rightarrow>
          (if extractKeywordsFromText query = [] then []
           else map (\<lambda>p. entryAt (entries idx) (fst p)) (rankedScores idx query)))"

definition search :: "SearchIndex option \<Rightarrow> string \<Rightarrow> IndexedDoc option list" where
  "search searchIndex query =
     (case searchIndex of None \<Rightarrow> [] | Some idx \<Rightarrow> searchIndexInternal searchIndex query)"

section \<open>The search tool (tools/search.ts)\<close>

datatype error =
    ValidationError string
  | NetworkError string
  | ScrapingError string
  | ConversionError string
  | SearchError string

text \<open>\<open>validateSearchQuery\<close>: \<open>None\<close> when the query passes, the error thrown otherwise.\<close>

definition validateSearchQuery :: "string \<Rightarrow> error option" where
  "validateSearchQuery query =
     (if query = [] then Some (ValidationError ''Search query must be a non-empty string'')
      else let trimmedQuery = trim query
           in if length trimmedQuery = 0
              then Some (ValidationError ''Search query cannot be empty'')
              else if length trimmedQuery < 2
              then Some (ValidationError ''Search query must be at least 2 characters long'')
              else if length trimmedQuery > 200
              then Some (ValidationError ''Search query is too long (max 200 characters)'')
              else None)"

definition getFallbackResults :: "SearchResult list" where
  "getFallbackResults =
     [\<lparr>url = ''https://developer.tenable.com/reference'',
       title = ''Tenable API Documentation'',
       description = ''Browse all Tenable API documentation. Your search may be found in various API sections.''\<rparr>,
      \<lparr>url = ''https://developer.tenable.com/recipes'',
       title = ''Tenable Recipes'',
       description = ''Pre-built integration examples and automation scripts that may help with your query.''\<rparr>,
      \<lparr>url = ''https://developer.tenable.com/api-explorer'',
       title = ''API Explorer'',
       description = ''Interactive tool to explore Tenable APIs and test endpoints.''\<rparr>]"

text \<open>What \<open>searchDocs\<close> does to the world is one thing: it asks the index. The model
  returns the list of queries passed to \<open>search\<close> beside the result. Reading a field of
  an \<open>undefined\<close> entry throws a \<open>TypeError\<close>, which the handler wraps in a
  \<open>SearchError\<close>.\<close>

definition toSearchResult :: "IndexedDoc \<Rightarrow> SearchResult" where
  "toSearchResult entry = \<lparr>url = url entry, title = title entry, description = description entry\<rparr>"

definition searchDocs :: "SearchIndex option \<Rightarrow> string \<Rightarrow> (error + SearchResult list) \<times> string list" where
  "searchDocs searchIndex query =
     (case validateSearchQuery query of
        Some e \<Rightarrow> (Inl e, [])
      | None \<Rightarrow>
          (let indexedResults = search searchIndex query
           in if None \<in> set indexedResults
              then (Inl (SearchError (''Failed to search documentation for query: '' @
                          [CHR 0x22] @ query @ [CHR 0x22])), [query])
              else let results = map (\<lambda>entry. toSearchResult (the entry)) indexedResults
                   in if length results = 0 then (Inr getFallbackResults, [query])
                      else (Inr results, [query])))"

section \<open>The LRU cache (utils/cache.ts)\<close>

text \<open>Time is \<open>Date.now()\<close>, milliseconds as an integer; every operation that reads the
  clock takes the time as an argument. The \<open>Map\<close> named \<open>cache\<close> is an association list
  in insertion order.\<close>

record 'a CacheEntry =
  data :: 'a
  timestamp :: int
  hits :: nat

record 'a LRUCache =
  cache :: "(string \<times> 'a CacheEntry) list"
  maxSize :: int
  ttl :: int
  accessOrder :: "string list"

text \<open>The constructor: \<open>options.maxSize || 100\<close> and \<open>options.ttl || 24 * 60 * 60 * 1000\<close>,
  so a missing option and the option 0 both give the default.\<close>

definition newLRUCache :: "int option \<Rightarrow> int option \<Rightarrow> 'a LRUCache" where
  "newLRUCache maxSizeOpt ttlOpt =
     \<lparr>cache = [],
      maxSize = (case maxSizeOpt of None \<Rightarrow> 100 | Some n \<Rightarrow> if n = 0 then 100 else n),
      ttl = (case ttlOpt of None \<Rightarrow> 24 * 60 * 60 * 1000
             | Some t \<Rightarrow> if t = 0 then 24 * 60 * 60 * 1000 else t),
      accessOrder = []\<rparr>"

text \<open>\<open>delete\<close>: the key leaves the map, and its first occurrence leaves \<open>accessOrder\<close>
  (\<open>indexOf\<close> and \<open>splice\<close>).\<close>

definition LRUCache_delete :: "'a LRUCache \<Rightarrow> string \<Rightarrow> bool \<times> 'a LRUCache" where
  "LRUCache_delete c key =
     (map_of (cache c) key \<noteq> None,
      c\<lparr>cache := AList.delete key (cache c), accessOrder := remove1 key (accessOrder c)\<rparr>)"

text \<open>\<open>updateAccessOrder\<close>: a key that is in \<open>accessOrder\<close> moves to its end.\<close>

definition LRUCache_updateAccessOrder :: "'a LRUCache \<Rightarrow> string \<Rightarrow> 'a LRUCache" where
  "LRUCache_updateAccessOrder c key =
     (if key \<in> set (accessOrder c)
      then c\<lparr>accessOrder := remove1 key (accessOrder c) @ [key]\<rparr>
      else c)"

text \<open>\<open>get\<close>: an unknown key is absent; an expired entry is deleted and absent; otherwise
  the key moves to the end of \<open>accessOrder\<close>, the entry counts one more hit, and its data
  is returned.\<close>

definition LRUCache_get :: "'a LRUCache \<Rightarrow> string \<Rightarrow> int \<Rightarrow> 'a option \<times> 'a LRUCache" where
  "LRUCache_get c key now =
     (case map_of (cache c) key of
        None \<Rightarrow> (None, c)
      | Some entry \<Rightarrow>
          if now - timestamp entry > ttl c then (None, snd (LRUCache_delete c key))
          else let c1 = LRUCache_updateAccessOrder c key
               in (Some (data entry),
                   c1\<lparr>cache := AList.update key (entry\<lparr>hits := hits entry + 1\<rparr>) (cache c1)\<rparr>))"

text \<open>\<open>set\<close>: a present key is deleted first. When the map is full, \<open>accessOrder.shift()\<close>
  takes the first key of \<open>accessOrder\<close>, and \<open>if (lruKey)\<close> deletes it from the map when it
  is truthy: not \<open>undefined\<close> (the array was empty) and not the empty string. Then the new
  entry is stored and the key pushed.\<close>

definition LRUCache_set :: "'a LRUCache \<Rightarrow> string \<Rightarrow> 'a \<Rightarrow> int \<Rightarrow> 'a LRUCache" where
  "LRUCache_set c key val now =
     (let c1 = (if map_of (cache c) key \<noteq> None then snd (LRUCache_delete c key) else c);
          c2 = (if int (length (cache c1)) \<ge> maxSize c1
                then (case accessOrder c1 of
                        [] \<Rightarrow> c1
                      | lruKey # rest \<Rightarrow>
                          if lruKey \<noteq> []
                          then c1\<lparr>cache := AList.delete lruKey (cache c1), accessOrder := rest\<rparr>
                          else c1\<lparr>accessOrder := rest\<rparr>)
                else c1)
      in c2\<lparr>cache := AList.update key \<lparr>data = val, timestamp = now, hits = 0\<rparr> (cache c2),
            accessOrder := accessOrder c2 @ [key]\<rparr>)"

text \<open>\<open>has\<close>: like \<open>get\<close>, without the move and without the hit.\<close>

definition LRUCache_has :: "'a LRUCache \<Rightarrow> string \<Rightarrow> int \<Rightarrow> bool \<times> 'a LRUCache" where
  "LRUCache_has c key now =
     (case map_of (cache c) key of
        None \<Rightarrow> (False, c)
      | Some entry \<Rightarrow>
          if now - timestamp entry > ttl c then (False, snd (LRUCache_delete c key))
          else (True, c))"

text \<open>\<open>createCacheKey(url)\<close> with the default empty parameters is the URL.\<close>

definition createCacheKey :: "string \<Rightarrow> string" where
  "createCacheKey u = u"

text \<open>A run of \<open>set\<close> calls, each with its key, value and time.\<close>

definition setAll :: "'a LRUCache \<Rightarrow> (string \<times> 'a \<times> int) list \<Rightarrow> 'a LRUCache" where
  "setAll c kvs = fold (\<lambda>(k, v, t) c'. LRUCache_set c' k v t) kvs c"

section \<open>Markdown clean-up (utils/converter.ts)\<close>

text \<open>The four steps of \<open>cleanMarkdown\<close>, each a function on strings.\<close>

text \<open>\<open>replace(/\n{3,}/g, '\n\n')\<close>: a run of three or more newlines becomes two, shorter
  runs stay; so every run of newlines is cut to at most two. \<open>n\<close> counts the newlines of
  the current run that were read.\<close>

fun collapseNewlinesAcc :: "nat \<Rightarrow> string \<Rightarrow> string" where
  "collapseNewlinesAcc n [] = []"
| "collapseNewlinesAcc n (c # cs) =
     (if c = CHR 0x0A
      then (if n < 2 then c # collapseNewlinesAcc (Suc n) cs else collapseNewlinesAcc (Suc n) cs)
      else c # collapseNewlinesAcc 0 cs)"

definition collapseNewlines :: "string \<Rightarrow> string" where
  "collapseNewlines s = collapseNewlinesAcc 0 s"

text \<open>\<open>replace(/[ \t]+$/gm, '')\<close>: with the flag \<open>m\<close>, \<open>$\<close> matches at the end of the input
  and before a line terminator. A maximal run of blanks and tabs is deleted when the end
  of the input or a line terminator follows it, and kept otherwise. \<open>pending\<close> is the run
  being read, reversed.\<close>

definition isLineTerminator :: "char \<Rightarrow> bool" where
  "isLineTerminator c \<longleftrightarrow> c = CHR 0x0A \<or> c = CHR 0x0D"

fun stripTrailingAcc :: "string \<Rightarrow> string \<Rightarrow> string" where
  "stripTrailingAcc pending [] = []"
| "stripTrailingAcc pending (c # cs) =
     (if c = CHR '' '' \<or> c = CHR 0x09 then stripTrailingAcc (c # pending) cs
      else if isLineTerminator c then c # stripTrailingAcc [] cs
      else rev pending @ c # stripTrailingAcc [] cs)"

definition stripTrailingWhitespace :: "string \<Rightarrow> string" where
  "stripTrailingWhitespace s = stripTrailingAcc [] s"

text \<open>\<open>replace(/^\n+|\n+$/g, '')\<close>, without the flag \<open>m\<close>: the newlines at the start and at
  the end of the input go.\<close>

definition trimNewlines :: "string \<Rightarrow> string" where
  "trimNewlines s =
     rev (dropWhile (\<lambda>c. c = CHR 0x0A) (rev (dropWhile (\<lambda>c. c = CHR 0x0A) s)))"

definition cleanMarkdown :: "string \<Rightarrow> string" where
  "cleanMarkdown markdown =
     trim (trimNewlines (stripTrailingWhitespace (collapseNewlines markdown)))"

section \<open>Code-block preservation (utils/scraper.ts)\<close>

text \<open>The decimal numeral of a number, as a template literal prints it.\<close>

fun showNat :: "nat \<Rightarrow> string" where
  "showNat n = (if n < 10 then [char_of (48 + n)] else showNat (n div 10) @ [char_of (48 + n mod 10)])"

text \<open>\<open>cheerio.load\<close> parses the markup into a tree and \<open>$.html\<close> writes a tree back. The
  parser is not part of the repository; the model starts from the parsed document, a list
  of nodes. A text node holds its characters as they are written in markup.\<close>

datatype node =
    Text string
  | Element string "(string \<times> string) list" "node list"

definition voidElements :: "string list" where
  "voidElements = [''area'', ''base'', ''br'', ''col'', ''embed'', ''hr'', ''img'', ''input'',
     ''link'', ''meta'', ''param'', ''source'', ''track'', ''wbr'']"

definition renderAttr :: "string \<times> string \<Rightarrow> string" where
  "renderAttr a = '' '' @ fst a @ ''='' @ [CHR 0x22] @ snd a @ [CHR 0x22]"

text \<open>\<open>$.html(element)\<close>: the outer markup of a node.\<close>

fun outerHTML :: "node \<Rightarrow> string" where
  "outerHTML (Text s) = s"
| "outerHTML (Element tag attrs children) =
     ''<'' @ tag @ concat (map renderAttr attrs) @ ''>'' @
     (if tag \<in> set voidElements then []
      else concat (map outerHTML children) @ ''</'' @ tag @ ''>'')"

text \<open>\<open>$.html()\<close>: the markup of the whole document.\<close>

definition documentHTML :: "node list \<Rightarrow> string" where
  "documentHTML doc = concat (map outerHTML doc)"

text \<open>\<open>s.includes(sub)\<close> (named \<open>strIncludes\<close> here), the test behind the attribute
  selector \<open>[class*="..."]\<close>.\<close>

fun strIncludes :: "string \<Rightarrow> string \<Rightarrow> bool" where
  "strIncludes [] sub = (sub = [])"
| "strIncludes (c # cs) sub = (take (length sub) (c # cs) = sub \<or> strIncludes cs sub)"

text \<open>The selector \<open>pre, code[class*="language-"], code[class*="hljs"]\<close>.\<close>

fun isCodeElement :: "node \<Rightarrow> bool" where
  "isCodeElement (Text s) = False"
| "isCodeElement (Element tag attrs children) =
     (tag = ''pre'' \<or>
      (tag = ''code'' \<and>
       (case map_of attrs ''class'' of
          None \<Rightarrow> False
        | Some cls \<Rightarrow> strIncludes cls ''language-'' \<or> strIncludes cls ''hljs'')))"

definition placeholderOf :: "nat \<Rightarrow> string" where
  "placeholderOf n = ''__CODE_BLOCK_'' @ showNat n @ ''__''"

text \<open>The loop of \<open>preserveCodeBlocks\<close> visits the selected elements in document order.
  Each gets the next placeholder, its outer markup is stored under the placeholder, and
  \<open>replaceWith\<close> puts a text node with the placeholder in its place. A selected element
  inside a selected element is visited after its ancestor was taken out of the document:
  it still takes a number and an entry of the map, and its replacement happens in the
  detached subtree. The functions return the new node (or nodes), the entries added to
  the map in order, and the next index.\<close>

fun preserveNode :: "nat \<Rightarrow> node \<Rightarrow> node \<times> (string \<times> string) list \<times> nat"
  and preserveNodes :: "nat \<Rightarrow> node list \<Rightarrow> node list \<times> (string \<times> string) list \<times> nat" where
  "preserveNode n (Text s) = (Text s, [], n)"
| "preserveNode n (Element tag attrs children) =
     (if isCodeElement (Element tag attrs children)
      then (case preserveNodes (Suc n) children of
              (detached, inner, n') \<Rightarrow>
                (Text (placeholderOf n),
                 (placeholderOf n, outerHTML (Element tag attrs children)) # inner, n'))
      else (case preserveNodes n children of
              (children', inner, n') \<Rightarrow> (Element tag attrs children', inner, n')))"
| "preserveNodes n [] = ([], [], n)"
| "preserveNodes n (x # xs) =
     (case preserveNode n x of
        (x', es, n') \<Rightarrow>
          (case preserveNodes n' xs of
             (xs', es', n'') \<Rightarrow> (x' # xs', es @ es', n'')))"

text \<open>\<open>preserveCodeBlocks\<close> returns \<open>cleanedHtml\<close> and the map \<open>codeBlocks\<close>.\<close>

definition preserveCodeBlocks :: "node list \<Rightarrow> string \<times> (string \<times> string) list" where
  "preserveCodeBlocks doc =
     (case preserveNodes 0 doc of (doc', blocks, n) \<Rightarrow> (documentHTML doc', blocks))"

text \<open>\<open>str.replace(pattern, replacement)\<close> with a string pattern replaces the first
  occurrence of the pattern, and the replacement string is a template: \<open>$$\<close> stands for a
  dollar sign, \<open>$&\<close> for the matched text, \<open>$`\<close> for the text before the match and \<open>$'\<close>
  for the text after it. A string pattern has no groups, so \<open>$1\<close> and the like are kept
  as they are.\<close>

fun findFirst :: "string \<Rightarrow> string \<Rightarrow> string \<Rightarrow> (string \<times> string) option" where
  "findFirst pat front [] = (if pat = [] then Some (rev front, []) else None)"
| "findFirst pat front (c # cs) =
     (if take (length pat) (c # cs) = pat then Some (rev front, drop (length pat) (c # cs))
      else findFirst pat (c # front) cs)"

fun getSubstitution :: "string \<Rightarrow> string \<Rightarrow> string \<Rightarrow> string \<Rightarrow> string" where
  "getSubstitution matched front back [] = []"
| "getSubstitution matched front back [c] = [c]"
| "getSubstitution matched front back (c # d # r) =
     (if c = CHR 0x24 \<and> d = CHR 0x24 then CHR 0x24 # getSubstitution matched front back r
      else if c = CHR 0x24 \<and> d = CHR ''&'' then matched @ getSubstitution matched front back r
      else if c = CHR 0x24 \<and> d = CHR 0x60 then front @ getSubstitution matched front back r
      else if c = CHR 0x24 \<and> d = CHR 0x27 then back @ getSubstitution matched front back r
      else c # getSubstitution matched front back (d # r))"

definition replaceFirst :: "string \<Rightarrow> string \<Rightarrow> string \<Rightarrow> string" where
  "replaceFirst str pat replacement =
     (case findFirst pat [] str of
        None \<Rightarrow> str
      | Some (front, back) \<Rightarrow> front @ getSubstitution pat front back replacement @ back)"

text \<open>\<open>restoreCodeBlocks\<close>: \<open>forEach\<close> over the map in insertion order.\<close>

definition restoreCodeBlocks :: "string \<Rightarrow> (string \<times> string) list \<Rightarrow> string" where
  "restoreCodeBlocks html codeBlocks =
     fold (\<lambda>(placeholder, originalCode) restoredHtml.
             replaceFirst restoredHtml placeholder originalCode)
       codeBlocks html"

text \<open>\<open>cleanHTMLPreservingCodeBlocks\<close>. \<open>cleanHTML\<close> parses its input again and works with
  the selector engine of the library, so it is a parameter here.\<close>

definition cleanHTMLPreservingCodeBlocks :: "(string \<Rightarrow> string) \<Rightarrow> node list \<Rightarrow> string" where
  "cleanHTMLPreservingCodeBlocks cleanHTML doc =
     (case preserveCodeBlocks doc of
        (htmlWithoutCode, codeBlocks) \<Rightarrow> restoreCodeBlocks (cleanHTML htmlWithoutCode) codeBlocks)"

text \<open>Two documents for the statements: a page with a shell sample, and the same page
  with a sample that has no dollar sign.\<close>

definition shellPage :: "node list" where
  "shellPage =
     [Element ''html'' []
        [Element ''head'' [] [],
         Element ''body'' []
           [Element ''p'' [] [Text ''Print the process id:''],
            Element ''pre'' [] [Element ''code'' [(''class'', ''language-bash'')] [Text ''echo $$'']]]]]"

definition plainPage :: "node list" where
  "plainPage =
     [Element ''html'' []
        [Element ''head'' [] [],
         Element ''body'' []
           [Element ''p'' [] [Text ''List the scans:''],
            Element ''pre'' [] [Element ''code'' [(''class'', ''language-bash'')] [Text ''curl /scans'']]]]]"

section \<open>The page reader (tools/read.ts in its version with the page cache and the 404 fallback)\<close>

definition ALLOWED_DOMAINS :: "string list" where
  "ALLOWED_DOMAINS = [''developer.tenable.com'', ''tenable.com'']"

text \<open>\<open>s.endsWith(suffix)\<close>.\<close>

definition endsWith :: "string \<Rightarrow> string \<Rightarrow> bool" where
  "endsWith s suf \<longleftrightarrow> length suf \<le> length s \<and> drop (length s - length suf) s = suf"

text \<open>\<open>validateUrl\<close>: \<open>None\<close> when the URL passes, the error thrown otherwise. An exception
  of the URL constructor becomes the \<open>ValidationError\<close> of the handler.\<close>

definition validateUrl :: "(string \<Rightarrow> URL option) \<Rightarrow> string \<Rightarrow> error option" where
  "validateUrl parseUrl u =
     (if u = [] then Some (ValidationError ''URL must be a non-empty string'')
      else let trimmedUrl = trim u
           in if length trimmedUrl = 0 then Some (ValidationError ''URL cannot be empty'')
              else (case parseUrl trimmedUrl of
                      None \<Rightarrow> Some (ValidationError ''Invalid URL format'')
                    | Some parsedUrl \<Rightarrow>
                        if protocol parsedUrl \<noteq> ''https:'' \<and> protocol parsedUrl \<noteq> ''http:''
                        then Some (ValidationError ''URL must use HTTP or HTTPS protocol'')
                        else let domain = toLowerCase (hostname parsedUrl);
                                 isAllowed = list_ex (\<lambda>allowedDomain.
                                   domain = allowedDomain \<or> endsWith domain (''.'' @ allowedDomain))
                                   ALLOWED_DOMAINS
                             in if \<not> isAllowed
                                then Some (ValidationError
                                  (''URL domain '' @ [CHR 0x22] @ domain @ [CHR 0x22] @
                                   '' is not allowed. Only Tenable documentation domains are permitted: '' @
                                   ''developer.tenable.com, tenable.com''))
                                else None))"

record HTMLContent =
  html :: string
  finalUrl :: string
  statusCode :: nat

text \<open>\<open>ReadPageOutput\<close>; its fields \<open>url\<close> and \<open>title\<close> are \<open>pageUrl\<close> and \<open>pageTitle\<close>
  here, and the field \<open>url\<close> of \<open>HTMLContent\<close> is \<open>finalUrl\<close>.\<close>

record ReadPageOutput =
  pageUrl :: string
  pageTitle :: string
  content :: string
  wordCount :: nat

text \<open>What the reader takes from outside the repository's own logic:
  \<^item> \<open>parseUrl\<close>, the URL constructor;
  \<^item> \<open>downloadHTML\<close>, the fetch: given the URLs fetched so far and the URL to fetch, the
    response or the error thrown;
  \<^item> \<open>extractTitle\<close>, the title found in the markup, if any;
  \<^item> \<open>convert\<close>, \<open>cleanHTMLPreservingCodeBlocks\<close> followed by
    \<open>htmlToMarkdownWithStats\<close>: the Markdown and the word count, or the error thrown.\<close>

record env =
  parseUrl :: "string \<Rightarrow> URL option"
  downloadHTML :: "string list \<Rightarrow> string \<Rightarrow> error + HTMLContent"
  extractTitle :: "string \<Rightarrow> string option"
  convert :: "string \<Rightarrow> error + (string \<times> nat)"

text \<open>\<open>extractTitle(html) || fallback\<close>: \<open>null\<close> and the empty string give the fallback.\<close>

definition titleOr :: "string option \<Rightarrow> string \<Rightarrow> string" where
  "titleOr t fallback = (case t of None \<Rightarrow> fallback | Some s \<Rightarrow> if s = [] then fallback else s)"

definition fallbackUrl :: string where
  "fallbackUrl = ''https://developer.tenable.com/reference''"

text \<open>The note put before the reference page: the text before the URL, the URL, the
  text after it.\<close>

definition noteHead :: string where
  "noteHead = ''\<newline>> **Note**: The requested page (''"

definition noteTail :: string where
  "noteTail =
     '') was not found. Below is the main API reference page. Please search for the specific endpoint or feature you'' @
     [CHR 0x27] @ ''re looking for.\<newline>''"

definition notFoundNote :: "string \<Rightarrow> string" where
  "notFoundNote u = noteHead @ u @ noteTail"

text \<open>The static page, in the same three parts.\<close>

definition notFoundHead :: string where
  "notFoundHead = ''# Page Not Found\<newline>\<newline>The requested page could not be found: ''"

definition notFoundTail :: string where
  "notFoundTail =
     ''\<newline>\<newline>## Suggested Actions:\<newline>\<newline>'' @
     ''1. **Browse the API Reference**: Visit [https://developer.tenable.com/reference](https://developer.tenable.com/reference) to find available endpoints\<newline>'' @
     ''2. **Use the Search**: Use the `search_docs` tool to find relevant documentation\<newline>'' @
     ''3. **Try API Explorer**: Visit [https://developer.tenable.com/api-explorer](https://developer.tenable.com/api-explorer) for interactive API exploration\<newline>'' @
     ''4. **Check Recipes**: Visit [https://developer.tenable.com/recipes](https://developer.tenable.com/recipes) for integration examples\<newline>\<newline>'' @
     ''## Common Endpoints:\<newline>\<newline>'' @
     ''- **Users**: `/users` - Manage user accounts\<newline>'' @
     ''- **Scans**: `/scans` - Launch and manage vulnerability scans\<newline>'' @
     ''- **Assets**: `/assets` - Manage asset data\<newline>'' @
     ''- **Policies**: `/policies` - Configure scan policies\<newline>'' @
     ''- **Targets**: `/target-groups` - Manage scan targets\<newline>\<newline>'' @
     ''If you believe this is an error, please contact Tenable support.''"

definition notFoundPage :: "string \<Rightarrow> ReadPageOutput" where
  "notFoundPage u =
     \<lparr>pageUrl = u,
      pageTitle = ''Page Not Found'',
      content = notFoundHead @ u @ notFoundTail,
      wordCount = 0\<rparr>"

text \<open>\<open>pathParts[0] === 'reference'\<close>, false for an empty array.\<close>

definition firstPartIsReference :: "string \<Rightarrow> bool" where
  "firstPartIsReference path =
     (case filter (\<lambda>part. length part > 0) (splitOn (CHR ''/'') path) of
        [] \<Rightarrow> False
      | part # rest \<Rightarrow> part = ''reference'')"

text \<open>\<open>handle404Fallback\<close>: the document, or \<open>None\<close> for \<open>null\<close>, and the URLs it fetched.
  \<open>fetched\<close> are the URLs fetched before. Every error inside the inner \<open>try\<close> leads to
  the static page.\<close>

definition handle404Fallback :: "env \<Rightarrow> string list \<Rightarrow> string \<Rightarrow> ReadPageOutput option \<times> string list" where
  "handle404Fallback e fetched u =
     (case parseUrl e u of
        None \<Rightarrow> (None, [])
      | Some urlObj \<Rightarrow>
          if firstPartIsReference (pathname urlObj)
          then (case downloadHTML e fetched fallbackUrl of
                  Inl err \<Rightarrow> (Some (notFoundPage u), [fallbackUrl])
                | Inr htmlContent \<Rightarrow>
                    if statusCode htmlContent = 200
                    then (case convert e (html htmlContent) of
                            Inl err \<Rightarrow> (Some (notFoundPage u), [fallbackUrl])
                          | Inr (markdown, wc) \<Rightarrow>
                              (Some \<lparr>pageUrl = fallbackUrl,
                                     pageTitle = titleOr (extractTitle e (html htmlContent))
                                                   ''Tenable API Reference'',
                                     content = notFoundNote u @ cleanMarkdown markdown,
                                     wordCount = wc\<rparr>,
                               [fallbackUrl]))
                    else (Some (notFoundPage u), [fallbackUrl]))
          else (Some (notFoundPage u), []))"

text \<open>The handler of \<open>readPage\<close> passes the four known kinds of error on and wraps any
  other.\<close>

definition rethrow :: "error \<Rightarrow> string \<Rightarrow> error" where
  "rethrow err inputUrl =
     (case err of
        ValidationError m \<Rightarrow> err
      | NetworkError m \<Rightarrow> err
      | ScrapingError m \<Rightarrow> err
      | ConversionError m \<Rightarrow> err
      | _ \<Rightarrow> ScrapingError (''Failed to read page at '' @ inputUrl))"

text \<open>\<open>readPage\<close>: the result, the page cache afterwards, and the URLs fetched, in order.
  \<open>tGet\<close> and \<open>tSet\<close> are the times of the cache read and of the cache write.\<close>

definition readPage ::
  "env \<Rightarrow> ReadPageOutput LRUCache \<Rightarrow> int \<Rightarrow> int \<Rightarrow> string
     \<Rightarrow> (error + ReadPageOutput) \<times> ReadPageOutput LRUCache \<times> string list" where
  "readPage e pageCache tGet tSet inputUrl =
     (case validateUrl (parseUrl e) inputUrl of
        Some err \<Rightarrow> (Inl err, pageCache, [])
      | None \<Rightarrow>
          let u = trim inputUrl;
              cacheKey = createCacheKey u;
              looked = LRUCache_get pageCache cacheKey tGet
          in (case fst looked of
                Some cachedResult \<Rightarrow> (Inr cachedResult, snd looked, [])
              | None \<Rightarrow>
                  (case downloadHTML e [] u of
                     Inl err \<Rightarrow> (Inl (rethrow err inputUrl), snd looked, [u])
                   | Inr htmlContent \<Rightarrow>
                       if statusCode htmlContent = 404
                       then (case handle404Fallback e [u] u of
                               (Some fallback, extra) \<Rightarrow>
                                 (Inr fallback, LRUCache_set (snd looked) cacheKey fallback tSet, u # extra)
                             | (None, extra) \<Rightarrow>
                                 (Inl (NetworkError ''Failed to download page: HTTP 404''),
                                  snd looked, u # extra))
                       else if statusCode htmlContent \<ge> 400
                       then (Inl (NetworkError (''Failed to download page: HTTP '' @
                                    showNat (statusCode htmlContent))), snd looked, [u])
                       else (case convert e (html htmlContent) of
                               Inl err \<Rightarrow> (Inl (rethrow err inputUrl), snd looked, [u])
                             | Inr (markdown, wc) \<Rightarrow>
                                 let result = \<lparr>pageUrl = finalUrl htmlContent,
                                      pageTitle = titleOr (extractTitle e (html htmlContent))
                                                    ''Untitled Document'',
                                      content = cleanMarkdown markdown,
                                      wordCount = wc\<rparr>
                                 in (Inr result, LRUCache_set (snd looked) cacheKey result tSet, [u])))))"

text \<open>An environment for the examples. Its parser stands for the URL constructor on
  URLs of the plain form scheme, \<open>://\<close>, host, path (no user, port, query or fragment),
  which is the form of the example inputs: the scheme and the host are lowercased, the
  host ends at the first slash, and an empty path is \<open>/\<close>. Every fetch answers 404 with
  an empty body.\<close>

definition splitUrl :: "string \<Rightarrow> URL option" where
  "splitUrl u =
     (case findFirst ''://'' [] u of
        None \<Rightarrow> None
      | Some (scheme, rest) \<Rightarrow>
          Some \<lparr>protocol = toLowerCase scheme @ '':'',
                hostname = toLowerCase (takeWhile (\<lambda>c. c \<noteq> CHR ''/'') rest),
                pathname = (if dropWhile (\<lambda>c. c \<noteq> CHR ''/'') rest = [] then ''/''
                            else dropWhile (\<lambda>c. c \<noteq> CHR ''/'') rest)\<rparr>)"

definition env404 :: env where
  "env404 =
     \<lparr>parseUrl = splitUrl,
      downloadHTML = (\<lambda>fetched u. Inr \<lparr>html = [], finalUrl = u, statusCode = 404\<rparr>),
      extractTitle = (\<lambda>markup. None),
      convert = (\<lambda>markup. Inr ([], 0))\<rparr>"

text \<open>The same with a reference page that answers 200.\<close>

definition envReference :: env where
  "envReference =
     \<lparr>parseUrl = splitUrl,
      downloadHTML = (\<lambda>fetched u.
         if u = fallbackUrl then Inr \<lparr>html = ''<h1>API</h1>'', finalUrl = u, statusCode = 200\<rparr>
         else Inr \<lparr>html = [], finalUrl = u, statusCode = 404\<rparr>),
      extractTitle = (\<lambda>markup. None),
      convert = (\<lambda>markup. Inr (''# API'', 1))\<rparr>"

definition emptyPageCache :: "ReadPageOutput LRUCache" where
  "emptyPageCache = newLRUCache (Some 100) (Some (24 * 60 * 60 * 1000))"

section \<open>Auxiliary notions for the statements\<close>

text \<open>The score stored for an entry position, 0 when the accumulator has no such key.\<close>

definition scoreOf :: "(nat \<times> nat) list \<Rightarrow> nat \<Rightarrow> nat" where
  "scoreOf scores i = (case map_of scores i of None \<Rightarrow> 0 | Some n \<Rightarrow> n)"

text \<open>A list without its repetitions, every element at the place of its first occurrence.\<close>

definition firstOccurrences :: "'a list \<Rightarrow> 'a list" where
  "firstOccurrences xs = rev (remdups (rev xs))"

text \<open>Three entries for the ranking examples: keywords \<open>scan, asset\<close>, \<open>scan\<close> and
  \<open>asset\<close>.\<close>

definition docScanAsset :: IndexedDoc where
  "docScanAsset = \<lparr>url = ''https://developer.tenable.com/reference/a'', title = ''A'',
     description = ''Tenable documentation page'', category = ''API References'',
     docKeywords = [''scan'', ''asset'']\<rparr>"

definition docScan :: IndexedDoc where
  "docScan = \<lparr>url = ''https://developer.tenable.com/reference/b'', title = ''B'',
     description = ''Tenable documentation page'', category = ''API References'',
     docKeywords = [''scan'']\<rparr>"

definition docAsset :: IndexedDoc where
  "docAsset = \<lparr>url = ''https://developer.tenable.com/reference/c'', title = ''C'',
     description = ''Tenable documentation page'', category = ''API References'',
     docKeywords = [''asset'']\<rparr>"

text \<open>Eleven entries for the cut at ten: ten with the keyword \<open>scan\<close> and, last, the
  entry with \<open>scan\<close> and \<open>asset\<close>.\<close>

definition docNumbered :: "nat \<Rightarrow> IndexedDoc" where
  "docNumbered n = \<lparr>url = ''https://developer.tenable.com/reference/scan-'' @ showNat n,
     title = ''Scan '' @ showNat n, description = ''Tenable documentation page'',
     category = ''API References'', docKeywords = [''scan'']\<rparr>"

definition elevenDocs :: "IndexedDoc list" where
  "elevenDocs = map docNumbered [0..<10] @ [docScanAsset]"

text \<open>The map entry that \<open>set\<close> makes of a key, a value and a time.\<close>

definition entryOf :: "string \<times> 'a \<times> int \<Rightarrow> string \<times> 'a CacheEntry" where
  "entryOf kvt = (fst kvt, \<lparr>data = fst (snd kvt), timestamp = snd (snd kvt), hits = 0\<rparr>)"

text \<open>The pieces of a string between its separators, every separator character
  separating: the reference for both ways of splitting.\<close>

fun pieces :: "(char \<Rightarrow> bool) \<Rightarrow> string \<Rightarrow> string list" where
  "pieces sep [] = [[]]"
| "pieces sep (c # cs) =
     (if sep c then [] # pieces sep cs
      else (case pieces sep cs of [] \<Rightarrow> [[c]] | p # ps \<Rightarrow> (c # p) # ps))"

text \<open>\<open>isRun sep w s\<close>: \<open>w\<close> is a token of \<open>s\<close>, a non-empty stretch of \<open>s\<close> without
  separators that has the start of \<open>s\<close> or a separator before it and the end of \<open>s\<close> or a
  separator after it.\<close>

definition isRun :: "(char \<Rightarrow> bool) \<Rightarrow> string \<Rightarrow> string \<Rightarrow> bool" where
  "isRun sep w s \<longleftrightarrow>
     w \<noteq> [] \<and> (\<forall>c \<in> set w. \<not> sep c) \<and>
     (\<exists>front back. s = front @ w @ back \<and>
        (front = [] \<or> sep (last front)) \<and> (back = [] \<or> sep (hd back)))"

text \<open>What separates the keywords of a URL path: the slash, the hyphen, the underscore
  and white space.\<close>

definition isPathSeparator :: "char \<Rightarrow> bool" where
  "isPathSeparator c \<longleftrightarrow> c = CHR ''/'' \<or> c = CHR ''-'' \<or> c = CHR ''_'' \<or> isWhiteSpace c"

text \<open>The text after the first two steps of \<open>extractKeywordsFromText\<close>: lowercased, and
  without the characters that are neither word characters nor white space nor hyphens.\<close>

definition strippedText :: "string \<Rightarrow> string" where
  "strippedText t = filter (\<lambda>c. isWordChar c \<or> isWhiteSpace c \<or> c = CHR ''-'') (toLowerCase t)"

section \<open>Properties: posting lists and scores\<close>

lemma postings_pushPosting:
  "postings (pushPosting k' i m) k = (if k = k' then postings m k @ [i] else postings m k)"
  by (simp add: postings_def pushPosting_def AList.update_conv')

lemma postings_fold_push:
  "postings (fold (\<lambda>keyword. pushPosting keyword i) kws m) k
     = postings m k @ replicate (count_list kws k) i"
proof (induction kws arbitrary: m)
  case Nil
  then show ?case by simp
next
  case (Cons a kws)
  then show ?case
    by (simp add: postings_pushPosting replicate_app_Cons_same)
qed

lemma postings_fold_entries:
  "postings (fold (\<lambda>(index, entry) m. fold (\<lambda>keyword. pushPosting keyword index) (docKeywords entry) m)
       (enumerate n es) m) k
   = postings m k @ concat (map (\<lambda>(i, e). replicate (count_list (docKeywords e) k) i) (enumerate n es))"
proof (induction es arbitrary: n m)
  case Nil
  then show ?case by simp
next
  case (Cons e es)
  then show ?case by (simp add: postings_fold_push)
qed

lemma postings_buildKeywordMap:
  "postings (buildKeywordMap es) k
     = concat (map (\<lambda>(i, e). replicate (count_list (docKeywords e) k) i) (enumerate 0 es))"
  unfolding buildKeywordMap_def
  by (subst postings_fold_entries) (simp add: postings_def)

lemma count_concat_enumerate:
  "count_list (concat (map (\<lambda>(i, e). replicate (f e) i) (enumerate n es))) j
     = (if n \<le> j \<and> j < n + length es then f (es ! (j - n)) else 0)"
proof (induction es arbitrary: n)
  case Nil
  then show ?case by simp
next
  case (Cons e es)
  have r: "count_list (replicate m i) j = (if i = j then m else 0)" for m and i :: nat
    by (induction m) auto
  show ?case
    using Cons[of "Suc n"] by (auto simp: r nth_Cons' Suc_diff_le)
qed

lemma count_postings_buildKeywordMap:
  "count_list (postings (buildKeywordMap es) k) j
     = (if j < length es then count_list (docKeywords (es ! j)) k else 0)"
  by (simp add: postings_buildKeywordMap count_concat_enumerate)

lemma set_postings_buildKeywordMap:
  "j \<in> set (postings (buildKeywordMap es) k) \<Longrightarrow> j < length es"
  using count_postings_buildKeywordMap[of es k j] count_list_0_iff[of "postings (buildKeywordMap es) k" j]
  by (simp split: if_splits)

lemma scoreOf_bumpScore:
  "scoreOf (bumpScore i sc) j = (if j = i then scoreOf sc i + 1 else scoreOf sc j)"
  by (simp add: scoreOf_def bumpScore_def AList.update_conv')

lemma scoreOf_fold_bump:
  "scoreOf (fold bumpScore is sc) j = scoreOf sc j + count_list is j"
  by (induction "is" arbitrary: sc) (auto simp: scoreOf_bumpScore)

lemma accumulateScores_alt:
  "accumulateScores km kws = fold bumpScore (concat (map (postings km) kws)) []"
proof -
  have "fold (\<lambda>keyword scores.
             (case map_of km keyword of
                None \<Rightarrow> scores
              | Some indices \<Rightarrow> fold bumpScore indices scores)) kws sc
        = fold bumpScore (concat (map (postings km) kws)) sc" for sc
    by (induction kws arbitrary: sc) (auto simp: postings_def split: option.split)
  then show ?thesis by (simp add: accumulateScores_def)
qed

lemma keys_bumpScore:
  "map fst (bumpScore i sc) = (if i \<in> set (map fst sc) then map fst sc else map fst sc @ [i])"
  by (simp add: bumpScore_def AList.update_keys image_iff)

lemma firstOccurrences_snoc:
  "firstOccurrences (xs @ [x]) = (if x \<in> set xs then firstOccurrences xs else firstOccurrences xs @ [x])"
  by (simp add: firstOccurrences_def)

lemma set_firstOccurrences [simp]: "set (firstOccurrences xs) = set xs"
  by (simp add: firstOccurrences_def)

lemma distinct_firstOccurrences [simp]: "distinct (firstOccurrences xs)"
  by (simp add: firstOccurrences_def)

lemma keys_fold_bump:
  "map fst sc = firstOccurrences pre \<Longrightarrow>
   map fst (fold bumpScore is sc) = firstOccurrences (pre @ is)"
proof (induction "is" arbitrary: sc pre)
  case Nil
  then show ?case by simp
next
  case (Cons i "is")
  have "map fst (bumpScore i sc) = firstOccurrences (pre @ [i])"
    using Cons.prems by (simp add: keys_bumpScore firstOccurrences_snoc)
  from Cons.IH[OF this] show ?case by simp
qed

lemma keys_accumulateScores:
  "map fst (accumulateScores km kws) = firstOccurrences (concat (map (postings km) kws))"
  using keys_fold_bump[of "[]" "[]"] by (simp add: accumulateScores_alt firstOccurrences_def)

lemma scoreOf_accumulateScores:
  "scoreOf (accumulateScores km kws) j = (\<Sum>k\<leftarrow>kws. count_list (postings km k) j)"
proof -
  have "count_list (concat xss) j = (\<Sum>xs\<leftarrow>xss. count_list xs j)" for xss :: "nat list list"
    by (induction xss) auto
  moreover have "scoreOf [] j = 0" by (simp add: scoreOf_def)
  ultimately show ?thesis
    by (simp add: accumulateScores_alt scoreOf_fold_bump comp_def)
qed

lemma distinct_keys_accumulateScores: "distinct (map fst (accumulateScores km kws))"
  by (simp add: keys_accumulateScores)

lemma in_accumulateScores:
  assumes "(i, s) \<in> set (accumulateScores km kws)"
  shows "s = (\<Sum>k\<leftarrow>kws. count_list (postings km k) i) \<and> i \<in> set (concat (map (postings km) kws))"
proof -
  have "map_of (accumulateScores km kws) i = Some s"
    using assms distinct_keys_accumulateScores by simp
  then have "scoreOf (accumulateScores km kws) i = s" by (simp add: scoreOf_def)
  moreover have "i \<in> set (map fst (accumulateScores km kws))"
    using assms by force
  ultimately show ?thesis
    by (simp add: scoreOf_accumulateScores keys_accumulateScores del: set_concat)
qed

lemma sum_count_filter:
  "distinct ks \<Longrightarrow> (\<Sum>k\<leftarrow>kws. count_list ks k) = length (filter (\<lambda>k. k \<in> set ks) kws)"
proof (induction kws)
  case Nil
  then show ?case by simp
next
  case (Cons a kws)
  have "count_list ks a = (if a \<in> set ks then 1 else 0)"
    using Cons.prems by (induction ks) auto
  with Cons show ?case by simp
qed

lemma sorted_sortByScore: "sorted_wrt (\<lambda>a b. a \<ge> b) (map snd (sortByScore sc))"
proof -
  have "sorted (map (\<lambda>p. - int (snd p)) (sortByScore sc))"
    by (simp add: sortByScore_def)
  then show ?thesis
    by (simp add: sorted_wrt_map)
qed

lemma stable_sortByScore: "filter (\<lambda>p. snd p = s) (sortByScore sc) = filter (\<lambda>p. snd p = s) sc"
  using sort_key_stable[of "\<lambda>p. - int (snd p)" "- int s" sc] by (simp add: sortByScore_def)

lemma keywordMap_mkIndex [simp]: "keywordMap (mkIndex es) = buildKeywordMap es"
  by (simp add: mkIndex_def)

lemma entries_mkIndex [simp]: "entries (mkIndex es) = es"
  by (simp add: mkIndex_def)

lemma length_sortByScore [simp]: "length (sortByScore sc) = length sc"
  by (simp add: sortByScore_def)

lemma set_sortByScore [simp]: "set (sortByScore sc) = set sc"
  by (simp add: sortByScore_def)

lemma top_of_sorted:
  assumes "sorted_wrt (\<lambda>a b. a \<ge> b) (map snd xs)"
    and "p \<in> set xs" and "p \<notin> set (take n xs)" and "q \<in> set (take n xs)"
  shows "snd p \<le> (snd q :: nat)"
proof -
  have "p \<in> set (drop n xs)"
    using assms(2,3) by (metis Un_iff append_take_drop_id set_append)
  moreover have "sorted_wrt (\<lambda>a b. a \<ge> b) (map snd (take n xs) @ map snd (drop n xs))"
    using assms(1) by (metis append_take_drop_id map_append)
  ultimately show ?thesis
    using assms(4) by (auto simp: sorted_wrt_append)
qed

lemma in_rankedScores:
  assumes "(i, s) \<in> set (rankedScores (mkIndex es) query)"
  shows "i < length es" and "1 \<le> s"
    and "s = (\<Sum>k\<leftarrow>extractKeywordsFromText query. count_list (docKeywords (es ! i)) k)"
proof -
  let ?kws = "extractKeywordsFromText query"
  have m: "(i, s) \<in> set (accumulateScores (buildKeywordMap es) ?kws)"
    using assms by (auto simp: rankedScores_def sortByScore_def dest: in_set_takeD)
  from in_accumulateScores[OF m]
  have s: "s = (\<Sum>k\<leftarrow>?kws. count_list (postings (buildKeywordMap es) k) i)"
    and h: "i \<in> set (concat (map (postings (buildKeywordMap es)) ?kws))" by simp_all
  from h obtain k where k: "k \<in> set ?kws" "i \<in> set (postings (buildKeywordMap es) k)" by auto
  then show lt: "i < length es" using set_postings_buildKeywordMap by blast
  then show eq: "s = (\<Sum>k\<leftarrow>?kws. count_list (docKeywords (es ! i)) k)"
    using s by (simp add: count_postings_buildKeywordMap)
  have "count_list (postings (buildKeywordMap es) k) i \<noteq> 0"
    using k(2) by (simp add: count_list_0_iff)
  then have "count_list (postings (buildKeywordMap es) k) i \<ge> 1" by simp
  moreover have "count_list (postings (buildKeywordMap es) k) i
                   \<le> (\<Sum>k\<leftarrow>?kws. count_list (postings (buildKeywordMap es) k) i)"
    using k(1) by (simp add: member_le_sum_list)
  ultimately show "1 \<le> s" using s by linarith
qed


section \<open>Properties: the characters of a keyword\<close>

lemma of_char_lt_256: "(of_char c :: nat) < 256"
  by (cases c) (simp add: of_char_def horner_sum_eq_sum_funpow)

lemma not_upper_toLowerChar: "\<not> isUpperChar (toLowerChar c)"
proof (cases "isUpperChar c")
  case False
  then show ?thesis by (simp add: toLowerChar_def)
next
  case True
  then have "(of_char c :: nat) + 32 < 256"
    by (auto simp: isUpperChar_def Let_def)
  then have "(of_char (char_of ((of_char c :: nat) + 32)) :: nat) = of_char c + 32"
    by simp
  then show ?thesis using True
    by (auto simp: toLowerChar_def isUpperChar_def Let_def)
qed

lemma set_splitWsAcc:
  "w \<in> set (splitWsAcc cur b s) \<Longrightarrow> set w \<subseteq> set cur \<union> {c \<in> set s. \<not> isWhiteSpace c}"
  by (induction cur b s rule: splitWsAcc.induct) (auto split: if_splits)

lemma set_splitWs: "w \<in> set (splitWs s) \<Longrightarrow> set w \<subseteq> {c \<in> set s. \<not> isWhiteSpace c}"
  using set_splitWsAcc[of w "[]" False s] by (simp add: splitWs_def)

lemma set_splitOnAcc:
  "w \<in> set (splitOnAcc sep cur s) \<Longrightarrow> set w \<subseteq> set cur \<union> (set s - {sep})"
  by (induction sep cur s rule: splitOnAcc.induct) (auto split: if_splits)

lemma set_splitOn: "w \<in> set (splitOn sep s) \<Longrightarrow> set w \<subseteq> set s - {sep}"
  using set_splitOnAcc[of w sep "[]" s] by (simp add: splitOn_def)

lemma set_replaceRuns: "set (replaceRuns P b s) \<subseteq> {c \<in> set s. \<not> P c} \<union> {CHR '' ''}"
  by (induction P b s rule: replaceRuns.induct) auto

lemma set_replaceChar: "set (replaceChar c s) \<subseteq> (set s - {c}) \<union> {CHR '' ''}"
  by (auto simp: replaceChar_def)

lemma set_trim: "set (trim s) \<subseteq> set s"
proof -
  have "set (dropWhile P xs) \<subseteq> set xs" for P and xs :: string
    by (meson set_dropWhileD subsetI)
  then show ?thesis unfolding trim_def
    by (metis (no_types, lifting) set_rev subset_trans)
qed

lemma of_char_toLowerChar:
  "isUpperChar c \<Longrightarrow> (of_char (toLowerChar c) :: nat) = of_char c + 32"
proof -
  assume u: "isUpperChar c"
  then have "(of_char c :: nat) + 32 < 256"
    by (auto simp: isUpperChar_def Let_def)
  then have "(of_char (char_of ((of_char c :: nat) + 32)) :: nat) = of_char c + 32"
    by simp
  then show ?thesis using u by (simp add: toLowerChar_def)
qed

lemma toLowerChar_separator:
  assumes "toLowerChar c \<in> {CHR ''/'', CHR ''-'', CHR ''_''} \<or> isWhiteSpace (toLowerChar c)"
  shows "toLowerChar c = c"
proof (rule ccontr)
  assume "toLowerChar c \<noteq> c"
  then have u: "isUpperChar c" by (auto simp: toLowerChar_def split: if_splits)
  let ?n = "of_char (toLowerChar c) :: nat"
  have n: "?n = of_char c + 32" by (rule of_char_toLowerChar[OF u])
  have r: "(97 \<le> ?n \<and> ?n \<le> 122) \<or> 224 \<le> ?n"
    using u unfolding n by (auto simp: isUpperChar_def Let_def)
  have "?n \<in> {47, 45, 95, 9, 10, 11, 12, 13, 32, 160}"
    using assms by (auto simp: isWhiteSpace_def)
  with r show False by auto
qed

lemma text_keyword_chars:
  assumes "w \<in> set (extractKeywordsFromText text)" and "c \<in> set w"
  shows "(isWordChar c \<or> c = CHR ''-'') \<and> \<not> isUpperChar c \<and> \<not> isWhiteSpace c"
proof -
  let ?s = "filter (\<lambda>c. isWordChar c \<or> isWhiteSpace c \<or> c = CHR ''-'') (toLowerCase text)"
  have "w \<in> set (splitWs ?s)"
    using assms(1) by (simp add: extractKeywordsFromText_def)
  from set_splitWs[OF this] assms(2) have c: "c \<in> set ?s" "\<not> isWhiteSpace c" by auto
  from c(1) obtain d where "c = toLowerChar d"
    by (auto simp: toLowerCase_def)
  then have "\<not> isUpperChar c"
    by (simp add: not_upper_toLowerChar)
  with c show ?thesis by auto
qed

lemma path_keyword_chars:
  assumes "w \<in> set (extractKeywordsFromPath p)" and "c \<in> set w"
  shows "c \<notin> {CHR ''/'', CHR ''-'', CHR ''_''} \<and> \<not> isWhiteSpace c \<and> \<not> isUpperChar c"
proof -
  let ?s1 = "replaceRuns (\<lambda>c. c = CHR ''/'') False p"
  let ?s2 = "replaceChar (CHR ''-'') ?s1"
  let ?s3 = "replaceChar (CHR ''_'') ?s2"
  let ?s4 = "replaceRuns isWhiteSpace False ?s3"
  let ?path = "trim ?s4"
  have w: "w \<in> set (splitOn (CHR '' '') (toLowerCase ?path))"
    using assms(1) by (auto simp: extractKeywordsFromPath_def Let_def split: if_splits)
  from set_splitOn[OF w] assms(2)
  have c: "c \<in> set (toLowerCase ?path)" "c \<noteq> CHR '' ''" by auto
  then obtain d where d: "d \<in> set ?path" "c = toLowerChar d"
    by (auto simp: toLowerCase_def)
  have p1: "x \<in> set ?s1 \<Longrightarrow> x \<noteq> CHR ''/''" for x
    using set_replaceRuns[of "\<lambda>c. c = CHR ''/''" False p] by auto
  have p2: "x \<in> set ?s2 \<Longrightarrow> x \<noteq> CHR ''/'' \<and> x \<noteq> CHR ''-''" for x
    using set_replaceChar[of "CHR ''-''" ?s1] p1 by auto
  have p3: "x \<in> set ?s3 \<Longrightarrow> x \<noteq> CHR ''/'' \<and> x \<noteq> CHR ''-'' \<and> x \<noteq> CHR ''_''" for x
    using set_replaceChar[of "CHR ''_''" ?s2] p2 by auto
  have p4: "x \<in> set ?s4 \<Longrightarrow> x \<noteq> CHR ''/'' \<and> x \<noteq> CHR ''-'' \<and> x \<noteq> CHR ''_''
              \<and> (isWhiteSpace x \<longrightarrow> x = CHR '' '')" for x
    using set_replaceRuns[of isWhiteSpace False ?s3] p3 by auto
  have pd: "d \<noteq> CHR ''/'' \<and> d \<noteq> CHR ''-'' \<and> d \<noteq> CHR ''_'' \<and> (isWhiteSpace d \<longrightarrow> d = CHR '' '')"
    using p4[of d] set_trim[of ?s4] d(1) by blast
  have "c \<notin> {CHR ''/'', CHR ''-'', CHR ''_''} \<and> \<not> isWhiteSpace c"
  proof (rule ccontr)
    assume "\<not> ?thesis"
    then have "toLowerChar d \<in> {CHR ''/'', CHR ''-'', CHR ''_''} \<or> isWhiteSpace (toLowerChar d)"
      using d(2) by auto
    from toLowerChar_separator[OF this] have "c = d" using d(2) by simp
    with pd c(2) \<open>\<not> ?thesis\<close> show False by auto
  qed
  moreover have "\<not> isUpperChar c" using d(2) not_upper_toLowerChar by simp
  ultimately show ?thesis by simp
qed

lemma text_keyword_word:
  "w \<in> set (extractKeywordsFromText text) \<Longrightarrow> length w > 2 \<and> w \<notin> set stopWords"
  by (simp add: extractKeywordsFromText_def)

lemma path_keyword_word:
  "w \<in> set (extractKeywordsFromPath p) \<Longrightarrow> length w > 2"
  by (auto simp: extractKeywordsFromPath_def Let_def split: if_splits)

section \<open>Properties: splitting into tokens\<close>

lemma pieces_nonempty [simp]: "pieces sep s \<noteq> []"
  by (induction s) (auto split: list.splits)

lemma pieces_Cons:
  "pieces sep (c # cs) =
     (if sep c then [] # pieces sep cs
      else (c # hd (pieces sep cs)) # tl (pieces sep cs))"
  by (cases "pieces sep cs") auto

lemma hd_pieces: "hd (pieces sep s) = takeWhile (\<lambda>c. \<not> sep c) s"
  by (induction s) (auto simp: pieces_Cons simp del: pieces.simps(2))

lemma takeWhile_eq_iff_run:
  "w = takeWhile (\<lambda>c. \<not> sep c) s \<longleftrightarrow>
     (\<forall>c \<in> set w. \<not> sep c) \<and> (\<exists>bk. s = w @ bk \<and> (bk = [] \<or> sep (hd bk)))"
proof
  assume w: "w = takeWhile (\<lambda>c. \<not> sep c) s"
  have "s = w @ dropWhile (\<lambda>c. \<not> sep c) s" by (simp add: w)
  moreover have "dropWhile (\<lambda>c. \<not> sep c) s = [] \<or> sep (hd (dropWhile (\<lambda>c. \<not> sep c) s))"
    using hd_dropWhile[of "\<lambda>c. \<not> sep c" s] by auto
  moreover have "\<forall>c \<in> set w. \<not> sep c"
    unfolding w by (auto dest: set_takeWhileD)
  ultimately show "(\<forall>c \<in> set w. \<not> sep c) \<and> (\<exists>bk. s = w @ bk \<and> (bk = [] \<or> sep (hd bk)))"
    by blast
next
  assume "(\<forall>c \<in> set w. \<not> sep c) \<and> (\<exists>bk. s = w @ bk \<and> (bk = [] \<or> sep (hd bk)))"
  then obtain bk where a: "\<forall>c \<in> set w. \<not> sep c" and s: "s = w @ bk"
    and b: "bk = [] \<or> sep (hd bk)" by blast
  show "w = takeWhile (\<lambda>c. \<not> sep c) s"
  proof (cases bk)
    case Nil
    then show ?thesis using a s by (simp add: takeWhile_eq_all_conv[THEN iffD2])
  next
    case (Cons x xs)
    then have "sep x" using b by simp
    then show ?thesis using a s Cons by (simp add: takeWhile_tail)
  qed
qed

lemma in_tl_pieces:
  "w \<in> set (tl (pieces sep s)) \<longleftrightarrow>
     (\<forall>c \<in> set w. \<not> sep c) \<and>
     (\<exists>fr bk. s = fr @ w @ bk \<and> fr \<noteq> [] \<and> sep (last fr)
        \<and> (bk = [] \<or> sep (hd bk)))"
proof (induction s)
  case Nil
  then show ?case by simp
next
  case (Cons c cs)
  let ?R = "\<lambda>s. (\<forall>c \<in> set w. \<not> sep c) \<and>
     (\<exists>fr bk. s = fr @ w @ bk \<and> fr \<noteq> [] \<and> sep (last fr)
        \<and> (bk = [] \<or> sep (hd bk)))"
  let ?H = "\<lambda>s. (\<forall>c \<in> set w. \<not> sep c) \<and> (\<exists>bk. s = w @ bk \<and> (bk = [] \<or> sep (hd bk)))"
  have split: "?R (c # cs) \<longleftrightarrow> (sep c \<and> ?H cs) \<or> ?R cs"
  proof
    assume "?R (c # cs)"
    then obtain fr bk where a: "\<forall>c \<in> set w. \<not> sep c"
      and s: "c # cs = fr @ w @ bk" and f: "fr \<noteq> []" "sep (last fr)"
      and b: "bk = [] \<or> sep (hd bk)" by blast
    from f(1) s obtain f' where f': "fr = c # f'" "cs = f' @ w @ bk"
      by (cases fr) auto
    show "(sep c \<and> ?H cs) \<or> ?R cs"
    proof (cases f')
      case Nil
      then show ?thesis using f' f(2) a b by auto
    next
      case (Cons y ys)
      then have "f' \<noteq> []" "sep (last f')" using f' f(2) by auto
      then show ?thesis using f'(2) a b by blast
    qed
  next
    assume "(sep c \<and> ?H cs) \<or> ?R cs"
    then show "?R (c # cs)"
    proof
      assume h: "sep c \<and> ?H cs"
      then obtain bk where "cs = w @ bk" "bk = [] \<or> sep (hd bk)" by blast
      then have "c # cs = [c] @ w @ bk \<and> [c] \<noteq> [] \<and> sep (last [c]) \<and> (bk = [] \<or> sep (hd bk))"
        using h by simp
      then show ?thesis using h by blast
    next
      assume r: "?R cs"
      then obtain fr bk where s: "cs = fr @ w @ bk" and f: "fr \<noteq> []" "sep (last fr)"
        and b: "bk = [] \<or> sep (hd bk)" by blast
      have "c # cs = (c # fr) @ w @ bk \<and> c # fr \<noteq> [] \<and> sep (last (c # fr))
              \<and> (bk = [] \<or> sep (hd bk))"
        using s f b by simp
      then show ?thesis using r by blast
    qed
  qed
  show ?case
  proof (cases "sep c")
    case True
    have "w \<in> set (tl (pieces sep (c # cs))) \<longleftrightarrow> w \<in> set (pieces sep cs)"
      using True by (simp add: pieces_Cons del: pieces.simps(2))
    also have "\<dots> \<longleftrightarrow> w = hd (pieces sep cs) \<or> w \<in> set (tl (pieces sep cs))"
      by (cases "pieces sep cs") auto
    also have "\<dots> \<longleftrightarrow> ?H cs \<or> ?R cs"
      unfolding hd_pieces takeWhile_eq_iff_run[symmetric] Cons.IH
      using takeWhile_eq_iff_run[of w sep cs] by blast
    finally show ?thesis using split True by blast
  next
    case False
    have "w \<in> set (tl (pieces sep (c # cs))) \<longleftrightarrow> w \<in> set (tl (pieces sep cs))"
      using False by (simp add: pieces_Cons del: pieces.simps(2))
    then show ?thesis using split False Cons.IH by blast
  qed
qed

lemma in_pieces_iff_run:
  "w \<noteq> [] \<Longrightarrow> w \<in> set (pieces sep s) \<longleftrightarrow> isRun sep w s"
proof -
  assume n: "w \<noteq> []"
  have "w \<in> set (pieces sep s) \<longleftrightarrow> w = hd (pieces sep s) \<or> w \<in> set (tl (pieces sep s))"
    by (cases "pieces sep s") auto
  also have "\<dots> \<longleftrightarrow> (\<forall>c \<in> set w. \<not> sep c) \<and>
       ((\<exists>bk. s = w @ bk \<and> (bk = [] \<or> sep (hd bk)))
        \<or> (\<exists>fr bk. s = fr @ w @ bk \<and> fr \<noteq> [] \<and> sep (last fr)
              \<and> (bk = [] \<or> sep (hd bk))))"
    unfolding hd_pieces in_tl_pieces using takeWhile_eq_iff_run[of w sep s] by blast
  also have "\<dots> \<longleftrightarrow> isRun sep w s"
    unfolding isRun_def using n
    by (metis append_Nil)
  finally show ?thesis .
qed

lemma splitOnAcc_pieces:
  "splitOnAcc sep cur s
     = (rev cur @ hd (pieces (\<lambda>c. c = sep) s)) # tl (pieces (\<lambda>c. c = sep) s)"
  by (induction s arbitrary: cur) (auto simp: pieces_Cons simp del: pieces.simps(2))

lemma splitOn_pieces: "splitOn sep s = pieces (\<lambda>c. c = sep) s"
  by (simp add: splitOn_def splitOnAcc_pieces)

lemma splitWsAcc_pieces:
  "(inRun \<longrightarrow> cur = []) \<Longrightarrow>
   filter (\<lambda>w. w \<noteq> []) (splitWsAcc cur inRun s)
     = filter (\<lambda>w. w \<noteq> [])
         ((rev cur @ hd (pieces isWhiteSpace s)) # tl (pieces isWhiteSpace s))"
proof (induction s arbitrary: cur inRun)
  case Nil
  then show ?case by simp
next
  case (Cons c cs)
  show ?case
  proof (cases "isWhiteSpace c")
    case True
    have "filter (\<lambda>w. w \<noteq> []) (splitWsAcc [] True cs)
            = filter (\<lambda>w. w \<noteq> []) (pieces isWhiteSpace cs)"
      using Cons.IH[of True "[]"] by simp
    then show ?thesis using True Cons.prems
      by (auto simp: pieces_Cons simp del: pieces.simps(2))
  next
    case False
    then show ?thesis using Cons.IH[of False "c # cur"]
      by (simp add: pieces_Cons del: pieces.simps(2))
  qed
qed

lemma in_splitWs_iff:
  "w \<noteq> [] \<Longrightarrow> w \<in> set (splitWs s) \<longleftrightarrow> w \<in> set (pieces isWhiteSpace s)"
proof -
  assume n: "w \<noteq> []"
  have "w \<in> set (splitWs s) \<longleftrightarrow> w \<in> set (filter (\<lambda>w. w \<noteq> []) (splitWs s))"
    using n by simp
  also have "\<dots> \<longleftrightarrow> w \<in> set (filter (\<lambda>w. w \<noteq> []) (pieces isWhiteSpace s))"
    using splitWsAcc_pieces[of False "[]" s] by (simp add: splitWs_def)
  also have "\<dots> \<longleftrightarrow> w \<in> set (pieces isWhiteSpace s)"
    using n by simp
  finally show ?thesis .
qed

lemma text_keyword_iff:
  "w \<in> set (extractKeywordsFromText t) \<longleftrightarrow>
     2 < length w \<and> w \<notin> set stopWords \<and> isRun isWhiteSpace w (strippedText t)"
proof (cases "w = []")
  case True
  then show ?thesis by (simp add: extractKeywordsFromText_def)
next
  case False
  have "w \<in> set (extractKeywordsFromText t) \<longleftrightarrow>
          2 < length w \<and> w \<notin> set stopWords \<and> w \<in> set (splitWs (strippedText t))"
    by (auto simp: extractKeywordsFromText_def strippedText_def)
  then show ?thesis
    using in_splitWs_iff[OF False] in_pieces_iff_run[OF False] by simp
qed

lemma pieces_cong: "(\<forall>c \<in> set s. P c = Q c) \<Longrightarrow> pieces P s = pieces Q s"
  by (induction s) auto

lemma pieces_map: "pieces P (map f s) = map (map f) (pieces (\<lambda>c. P (f c)) s)"
  by (induction s) (auto split: list.splits)

lemma pieces_map_same:
  "(\<And>c. sep (f c) = sep c) \<Longrightarrow> (\<And>c. \<not> sep c \<Longrightarrow> f c = c) \<Longrightarrow>
   pieces sep (map f s) = pieces sep s"
  by (induction s) (auto split: list.splits)

lemma replaceRuns_pieces:
  assumes q: "\<And>c. Q c \<Longrightarrow> sep c" and sp: "sep (CHR '' '')"
  shows "filter (\<lambda>w. w \<noteq> []) (pieces sep (replaceRuns Q b s))
           = filter (\<lambda>w. w \<noteq> []) (pieces sep s)
         \<and> (\<not> b \<longrightarrow> hd (pieces sep (replaceRuns Q b s)) = hd (pieces sep s)
                  \<and> filter (\<lambda>w. w \<noteq> []) (tl (pieces sep (replaceRuns Q b s)))
                      = filter (\<lambda>w. w \<noteq> []) (tl (pieces sep s)))"
proof (induction s arbitrary: b)
  case Nil
  then show ?case by simp
next
  case (Cons c cs)
  note ihT = Cons.IH[of True] and ihF = Cons.IH[of False]
  show ?case
  proof (cases "Q c")
    case True
    then have "sep c" by (rule q)
    then show ?thesis using True ihT sp
      by (cases b) (simp_all add: pieces_Cons del: pieces.simps(2))
  next
    case False
    then show ?thesis using ihF
      by (cases "sep c") (simp_all add: pieces_Cons del: pieces.simps(2))
  qed
qed

lemma pieces_snoc:
  "pieces sep (s @ [x]) =
     (if sep x then pieces sep s @ [[]]
      else butlast (pieces sep s) @ [last (pieces sep s) @ [x]])"
proof (induction s)
  case Nil
  then show ?case by simp
next
  case (Cons c cs)
  obtain p ps where p: "pieces sep cs = p # ps" by (cases "pieces sep cs") auto
  show ?case
  proof (cases "sep c")
    case True
    then show ?thesis using Cons by (simp add: butlast_append)
  next
    case False
    then show ?thesis using Cons p by (cases ps) (auto split: list.splits)
  qed
qed

lemma pieces_rev: "pieces sep (rev s) = rev (map rev (pieces sep s))"
proof (induction s)
  case Nil
  then show ?case by simp
next
  case (Cons c cs)
  obtain p ps where p: "pieces sep cs = p # ps" by (cases "pieces sep cs") auto
  show ?case using Cons p by (simp add: pieces_snoc)
qed

lemma dropWhile_pieces:
  "(\<And>c. P c \<Longrightarrow> sep c) \<Longrightarrow>
   filter (\<lambda>w. w \<noteq> []) (pieces sep (dropWhile P s)) = filter (\<lambda>w. w \<noteq> []) (pieces sep s)"
  by (induction s) (auto split: list.splits)

lemma filter_nonempty_rev:
  "filter (\<lambda>w. w \<noteq> []) (rev (map rev ps)) = rev (map rev (filter (\<lambda>w. w \<noteq> []) ps))"
  by (induction ps) auto

lemma trim_pieces:
  assumes "\<And>c. isWhiteSpace c \<Longrightarrow> sep c"
  shows "filter (\<lambda>w. w \<noteq> []) (pieces sep (trim s)) = filter (\<lambda>w. w \<noteq> []) (pieces sep s)"
proof -
  let ?F = "\<lambda>s. filter (\<lambda>w. w \<noteq> []) (pieces sep s)"
  have r: "?F (rev s) = rev (map rev (?F s))" for s
    by (simp add: pieces_rev filter_nonempty_rev)
  have d: "?F (dropWhile isWhiteSpace s) = ?F s" for s
    by (rule dropWhile_pieces) (rule assms)
  have "?F (trim s) = rev (map rev (?F (dropWhile isWhiteSpace (rev (dropWhile isWhiteSpace s)))))"
    unfolding trim_def by (rule r)
  also have "\<dots> = rev (map rev (?F (rev (dropWhile isWhiteSpace s))))"
    by (simp only: d)
  also have "\<dots> = rev (map rev (rev (map rev (?F (dropWhile isWhiteSpace s)))))"
    by (simp only: r)
  also have "\<dots> = ?F s"
    by (simp add: d rev_map comp_def)
  finally show ?thesis .
qed

lemma toLowerChar_space: "toLowerChar c = CHR '' '' \<longleftrightarrow> c = CHR '' ''"
proof
  assume a: "toLowerChar c = CHR '' ''"
  then have "isWhiteSpace (toLowerChar c)" by (simp add: isWhiteSpace_def)
  then have "toLowerChar c = c" using toLowerChar_separator by blast
  with a show "c = CHR '' ''" by simp
next
  assume "c = CHR '' ''"
  then show "toLowerChar c = CHR '' ''" by (simp add: toLowerChar_def isUpperChar_def)
qed

lemma path_keyword_iff:
  "w \<in> set (extractKeywordsFromPath p) \<longleftrightarrow>
     2 < length w \<and> (\<exists>v. w = toLowerCase v \<and> isRun isPathSeparator v p)"
proof -
  let ?sep = isPathSeparator
  let ?F = "\<lambda>s. filter (\<lambda>w. w \<noteq> []) (pieces ?sep s)"
  let ?s1 = "replaceRuns (\<lambda>c. c = CHR ''/'') False p"
  let ?s2 = "replaceChar (CHR ''-'') ?s1"
  let ?s3 = "replaceChar (CHR ''_'') ?s2"
  let ?s4 = "replaceRuns isWhiteSpace False ?s3"
  let ?path = "trim ?s4"
  have sp: "?sep (CHR '' '')" by (simp add: isPathSeparator_def isWhiteSpace_def)
  have ws: "isWhiteSpace c \<Longrightarrow> ?sep c" for c by (simp add: isPathSeparator_def)
  have f1: "?F ?s1 = ?F p"
    using replaceRuns_pieces[of "\<lambda>c. c = CHR ''/''" ?sep False p] sp
    by (simp add: isPathSeparator_def)
  have f2: "pieces ?sep ?s2 = pieces ?sep ?s1"
    unfolding replaceChar_def
    by (rule pieces_map_same) (auto simp: isPathSeparator_def isWhiteSpace_def)
  have f3: "pieces ?sep ?s3 = pieces ?sep ?s2"
    unfolding replaceChar_def
    by (rule pieces_map_same) (auto simp: isPathSeparator_def isWhiteSpace_def)
  have f4: "?F ?s4 = ?F ?s3"
    using replaceRuns_pieces[of isWhiteSpace ?sep False ?s3] sp ws by simp
  have f5: "?F ?path = ?F ?s4"
    by (rule trim_pieces) (rule ws)
  have F: "?F ?path = ?F p"
    using f1 f2 f3 f4 f5 by simp
  have runs: "v \<noteq> [] \<Longrightarrow> v \<in> set (pieces ?sep ?path) \<longleftrightarrow> isRun ?sep v p" for v
  proof -
    assume n: "v \<noteq> []"
    have "v \<in> set (pieces ?sep ?path) \<longleftrightarrow> v \<in> set (?F ?path)" using n by simp
    also have "\<dots> \<longleftrightarrow> v \<in> set (pieces ?sep p)" unfolding F using n by simp
    finally show ?thesis using in_pieces_iff_run[OF n] by simp
  qed
  have p1: "x \<in> set ?s1 \<Longrightarrow> x \<noteq> CHR ''/''" for x
    using set_replaceRuns[of "\<lambda>c. c = CHR ''/''" False p] by auto
  have p2: "x \<in> set ?s2 \<Longrightarrow> x \<noteq> CHR ''/'' \<and> x \<noteq> CHR ''-''" for x
    using set_replaceChar[of "CHR ''-''" ?s1] p1 by auto
  have p3: "x \<in> set ?s3 \<Longrightarrow> x \<noteq> CHR ''/'' \<and> x \<noteq> CHR ''-'' \<and> x \<noteq> CHR ''_''" for x
    using set_replaceChar[of "CHR ''_''" ?s2] p2 by auto
  have p4: "x \<in> set ?s4 \<Longrightarrow> x \<noteq> CHR ''/'' \<and> x \<noteq> CHR ''-'' \<and> x \<noteq> CHR ''_''
              \<and> (isWhiteSpace x \<longrightarrow> x = CHR '' '')" for x
    using set_replaceRuns[of isWhiteSpace False ?s3] p3 by auto
  have p5: "x \<in> set ?path \<Longrightarrow> ?sep x \<longleftrightarrow> x = CHR '' ''" for x
    using p4[of x] set_trim[of ?s4] sp by (auto simp: isPathSeparator_def)
  have pc: "pieces (\<lambda>c. toLowerChar c = CHR '' '') ?path = pieces ?sep ?path"
    by (rule pieces_cong) (simp add: toLowerChar_space p5)
  have tl: "toLowerCase = map toLowerChar"
    by (rule ext) (simp add: toLowerCase_def)
  show ?thesis
  proof (cases "?path = []")
    case True
    then have "?F p = []" using F by simp
    then have "\<not> isRun ?sep v p" for v
      using in_pieces_iff_run[of v ?sep p]
      by (metis (mono_tags, lifting) filter_empty_conv isRun_def)
    moreover have "extractKeywordsFromPath p = []"
      using True by (simp add: extractKeywordsFromPath_def)
    ultimately show ?thesis by simp
  next
    case False
    then have "extractKeywordsFromPath p
                 = filter (\<lambda>word. 2 < length word)
                     (map toLowerCase (pieces ?sep ?path))"
      by (simp add: extractKeywordsFromPath_def Let_def splitOn_pieces tl pieces_map pc)
    then have "w \<in> set (extractKeywordsFromPath p) \<longleftrightarrow>
                 2 < length w \<and> (\<exists>v \<in> set (pieces ?sep ?path). w = toLowerCase v)"
      by auto
    also have "\<dots> \<longleftrightarrow> 2 < length w \<and> (\<exists>v. w = toLowerCase v \<and> isRun ?sep v p)"
    proof (intro iffI conjI)
      assume a: "2 < length w \<and> (\<exists>v \<in> set (pieces ?sep ?path). w = toLowerCase v)"
      then show "2 < length w" by simp
      from a obtain v where v: "v \<in> set (pieces ?sep ?path)" "w = toLowerCase v" by blast
      then have "v \<noteq> []" using a by (auto simp: toLowerCase_def)
      then show "\<exists>v. w = toLowerCase v \<and> isRun ?sep v p" using v runs by blast
    next
      assume a: "2 < length w \<and> (\<exists>v. w = toLowerCase v \<and> isRun ?sep v p)"
      then show "2 < length w" by simp
      from a obtain v where v: "w = toLowerCase v" "isRun ?sep v p" by blast
      then have "v \<noteq> []" by (simp add: isRun_def)
      then show "\<exists>v \<in> set (pieces ?sep ?path). w = toLowerCase v" using v runs by blast
    qed
    finally show ?thesis .
  qed
qed

section \<open>Search ranking\<close>

lemma searchIndexInternal_mkIndex:
  "searchIndexInternal (Some (mkIndex es)) query
     = map (\<lambda>p. Some (es ! fst p)) (rankedScores (mkIndex es) query)"
proof (cases "extractKeywordsFromText query = []")
  case True
  then show ?thesis
    by (simp add: searchIndexInternal_def rankedScores_def accumulateScores_def sortByScore_def)
next
  case False
  have "entryAt es (fst p) = Some (es ! fst p)" if "p \<in> set (rankedScores (mkIndex es) query)" for p
    using that in_rankedScores(1)[of "fst p" "snd p" es query] by (simp add: entryAt_def)
  then show ?thesis using False by (simp add: searchIndexInternal_def)
qed

lemma in_accumulateScores_mkIndex:
  assumes "(i, s) \<in> set (accumulateScores (keywordMap (mkIndex es)) kws)"
  shows "i < length es \<and> 1 \<le> s \<and> s = (\<Sum>k\<leftarrow>kws. count_list (docKeywords (es ! i)) k)"
proof -
  have m: "(i, s) \<in> set (accumulateScores (buildKeywordMap es) kws)"
    using assms by simp
  from in_accumulateScores[OF m]
  have s: "s = (\<Sum>k\<leftarrow>kws. count_list (postings (buildKeywordMap es) k) i)"
    and h: "i \<in> set (concat (map (postings (buildKeywordMap es)) kws))" by simp_all
  from h obtain k where k: "k \<in> set kws" "i \<in> set (postings (buildKeywordMap es) k)" by auto
  then have lt: "i < length es" using set_postings_buildKeywordMap by blast
  then have eq: "s = (\<Sum>k\<leftarrow>kws. count_list (docKeywords (es ! i)) k)"
    using s by (simp add: count_postings_buildKeywordMap)
  have "count_list (postings (buildKeywordMap es) k) i \<noteq> 0"
    using k(2) by (simp add: count_list_0_iff)
  then have "count_list (postings (buildKeywordMap es) k) i \<ge> 1" by simp
  moreover have "count_list (postings (buildKeywordMap es) k) i
                   \<le> (\<Sum>k\<leftarrow>kws. count_list (postings (buildKeywordMap es) k) i)"
    using k(1) by (simp add: member_le_sum_list)
  ultimately have "1 \<le> s" using s by linarith
  with lt eq show ?thesis by simp
qed

text \<open>C2 (search ranking, as the code has it). For an index built from the entries \<open>es\<close> and
  any query, the accumulator holds one pair \<open>(i, s)\<close> for every entry position \<open>i\<close> hit by a
  token of the query: \<open>i\<close> is a valid position and the score \<open>s\<close> is at least 1 and equals
  the number of hits of the query's tokens in the entry's keyword list, every occurrence
  of a token in the query counted; when the entry's keywords are distinct (as
  \<open>extractDocLinks\<close> makes them), this is the number of token occurrences of the query that
  are keywords of the entry. The keys of the accumulator stand in the order in which the
  entries were first hit (query tokens in order, each posting list in order). The sort
  puts the whole accumulator in descending order of score, keeps all its pairs, and keeps
  pairs of equal score in the order of the accumulator: the order of first hit, not the
  entry order, decides ties. The ranked list is the first ten of the sorted accumulator
  (all of it when there are fewer), so no pair left out has a higher score than a pair
  returned, and the result is the list of the entries at the ranked positions. With entry
  A of keywords \<open>scan, asset\<close> and entry B of keyword \<open>scan\<close>, the query \<open>scan asset\<close> returns
  A (score 2) before B (score 1).\<close>

theorem search_ranking:
  "let kws = extractKeywordsFromText query;
       acc = accumulateScores (keywordMap (mkIndex es)) kws;
       ranked = rankedScores (mkIndex es) query
   in (\<forall>(i, s) \<in> set ranked.
         i < length es \<and> 1 \<le> s \<and>
         s = (\<Sum>k\<leftarrow>kws. count_list (docKeywords (es ! i)) k) \<and>
         (distinct (docKeywords (es ! i)) \<longrightarrow>
            s = length (filter (\<lambda>k. k \<in> set (docKeywords (es ! i))) kws)))
    \<and> (\<forall>(i, s) \<in> set acc.
         i < length es \<and> 1 \<le> s \<and>
         s = (\<Sum>k\<leftarrow>kws. count_list (docKeywords (es ! i)) k) \<and>
         (distinct (docKeywords (es ! i)) \<longrightarrow>
            s = length (filter (\<lambda>k. k \<in> set (docKeywords (es ! i))) kws)))
    \<and> distinct (map fst acc)
    \<and> sorted_wrt (\<lambda>a b. a \<ge> b) (map snd (sortByScore acc))
    \<and> set (sortByScore acc) = set acc
    \<and> length (sortByScore acc) = length acc
    \<and> sorted_wrt (\<lambda>a b. a \<ge> b) (map snd ranked)
    \<and> length ranked \<le> 10
    \<and> length ranked = min 10 (length acc)
    \<and> set ranked \<subseteq> set acc
    \<and> (\<forall>p \<in> set acc. p \<notin> set ranked \<longrightarrow> (\<forall>q \<in> set ranked. snd p \<le> snd q))
    \<and> ranked = take 10 (sortByScore acc)
    \<and> (\<forall>s. filter (\<lambda>p. snd p = s) (sortByScore acc) = filter (\<lambda>p. snd p = s) acc)
    \<and> map fst acc = firstOccurrences (concat (map (postings (keywordMap (mkIndex es))) kws))
    \<and> searchIndexInternal (Some (mkIndex es)) query = map (\<lambda>p. Some (es ! fst p)) ranked
    \<and> searchIndexInternal (Some (mkIndex [docScanAsset, docScan])) ''scan asset''
         = [Some docScanAsset, Some docScan]
    \<and> rankedScores (mkIndex [docScanAsset, docScan]) ''scan asset'' = [(0, 2), (1, 1)]"
proof -
  let ?kws = "extractKeywordsFromText query"
  let ?acc = "accumulateScores (keywordMap (mkIndex es)) ?kws"
  let ?r = "rankedScores (mkIndex es) query"
  have a: "\<forall>(i, s) \<in> set ?r.
         i < length es \<and> 1 \<le> s \<and>
         s = (\<Sum>k\<leftarrow>?kws. count_list (docKeywords (es ! i)) k) \<and>
         (distinct (docKeywords (es ! i)) \<longrightarrow>
            s = length (filter (\<lambda>k. k \<in> set (docKeywords (es ! i))) ?kws))"
  proof (intro ballI, clarify, intro conjI impI)
    fix i s assume m: "(i, s) \<in> set ?r"
    show "i < length es" by (rule in_rankedScores(1)[OF m])
    show "1 \<le> s" by (rule in_rankedScores(2)[OF m])
    show eq: "s = (\<Sum>k\<leftarrow>?kws. count_list (docKeywords (es ! i)) k)"
      by (rule in_rankedScores(3)[OF m])
    assume "distinct (docKeywords (es ! i))"
    then show "s = length (filter (\<lambda>k. k \<in> set (docKeywords (es ! i))) ?kws)"
      using eq by (simp add: sum_count_filter)
  qed
  have a': "\<forall>(i, s) \<in> set ?acc.
         i < length es \<and> 1 \<le> s \<and>
         s = (\<Sum>k\<leftarrow>?kws. count_list (docKeywords (es ! i)) k) \<and>
         (distinct (docKeywords (es ! i)) \<longrightarrow>
            s = length (filter (\<lambda>k. k \<in> set (docKeywords (es ! i))) ?kws))"
  proof (intro ballI, clarify, intro conjI impI)
    fix i s assume m: "(i, s) \<in> set ?acc"
    note f = in_accumulateScores_mkIndex[OF m]
    show "i < length es" using f by simp
    show "1 \<le> s" using f by simp
    show eq: "s = (\<Sum>k\<leftarrow>?kws. count_list (docKeywords (es ! i)) k)" using f by simp
    assume "distinct (docKeywords (es ! i))"
    then show "s = length (filter (\<lambda>k. k \<in> set (docKeywords (es ! i))) ?kws)"
      using eq by (simp add: sum_count_filter)
  qed
  have dk: "distinct (map fst ?acc)"
    by (rule distinct_keys_accumulateScores)
  have so: "sorted_wrt (\<lambda>a b. a \<ge> b) (map snd (sortByScore ?acc))"
    by (rule sorted_sortByScore)
  have se: "set (sortByScore ?acc) = set ?acc" by simp
  have le: "length (sortByScore ?acc) = length ?acc" by simp
  have r: "?r = take 10 (sortByScore ?acc)"
    by (simp add: rankedScores_def)
  have b: "sorted_wrt (\<lambda>a b. a \<ge> b) (map snd ?r)"
    unfolding r take_map[symmetric] by (rule sorted_wrt_take[OF sorted_sortByScore])
  have c: "length ?r \<le> 10" by (simp add: r)
  have c': "length ?r = min 10 (length ?acc)" by (simp add: r min.commute)
  have su: "set ?r \<subseteq> set ?acc"
    unfolding r using set_take_subset[of 10 "sortByScore ?acc"] by simp
  have top: "\<forall>p \<in> set ?acc. p \<notin> set ?r \<longrightarrow> (\<forall>q \<in> set ?r. snd p \<le> snd q)"
  proof (intro ballI impI)
    fix p q assume "p \<in> set ?acc" "p \<notin> set ?r" "q \<in> set ?r"
    then show "snd p \<le> snd q"
      unfolding r using top_of_sorted[OF so, of p 10 q] by simp
  qed
  have d: "\<forall>s. filter (\<lambda>p. snd p = s) (sortByScore ?acc) = filter (\<lambda>p. snd p = s) ?acc"
    by (simp add: stable_sortByScore)
  have f: "map fst ?acc = firstOccurrences (concat (map (postings (keywordMap (mkIndex es))) ?kws))"
    by (rule keys_accumulateScores)
  have e: "searchIndexInternal (Some (mkIndex es)) query = map (\<lambda>p. Some (es ! fst p)) ?r"
    by (rule searchIndexInternal_mkIndex)
  have g: "searchIndexInternal (Some (mkIndex [docScanAsset, docScan])) ''scan asset''
         = [Some docScanAsset, Some docScan]"
    by code_simp
  have h: "rankedScores (mkIndex [docScanAsset, docScan]) ''scan asset'' = [(0, 2), (1, 1)]"
    by code_simp
  show ?thesis
    unfolding Let_def
    by (intro conjI a a' dk so se le b c c' su top r d f e g h)
qed

text \<open>The statement at three entries and the query \<open>scan asset scan\<close>: the first entry is
  ranked with score 3, the three token occurrences that are among its keywords. And at
  eleven entries that are all hit by \<open>scan asset\<close>, the last one twice: the last entry is
  returned first, and the entry at position 9, hit before it, is the one left out.\<close>

theorem search_ranking_witness:
  "(0, 3) \<in> set (rankedScores (mkIndex [docScanAsset, docScan, docAsset]) ''scan asset scan'')
   \<and> distinct (docKeywords ([docScanAsset, docScan, docAsset] ! 0))
   \<and> (3::nat) = length (filter (\<lambda>k. k \<in> set (docKeywords ([docScanAsset, docScan, docAsset] ! 0)))
                 (extractKeywordsFromText ''scan asset scan''))
   \<and> rankedScores (mkIndex elevenDocs) ''scan asset''
        = [(10, 2), (0, 1), (1, 1), (2, 1), (3, 1), (4, 1), (5, 1), (6, 1), (7, 1), (8, 1)]
   \<and> (9, 1) \<in> set (accumulateScores (keywordMap (mkIndex elevenDocs))
                      (extractKeywordsFromText ''scan asset''))
   \<and> (9, 1) \<notin> set (rankedScores (mkIndex elevenDocs) ''scan asset'')
   \<and> (10, 2) \<in> set (rankedScores (mkIndex elevenDocs) ''scan asset'')
   \<and> snd (9 :: nat, 1 :: nat) \<le> snd (10 :: nat, 2 :: nat)"
proof -
  let ?es = "[docScanAsset, docScan, docAsset]"
  let ?q = "''scan asset scan''"
  have e: "rankedScores (mkIndex ?es) ?q = [(0, 3), (1, 2), (2, 1)]"
    by code_simp
  then have m: "(0, 3) \<in> set (rankedScores (mkIndex ?es) ?q)"
    by simp
  have d: "distinct (docKeywords (?es ! 0))"
    by (simp add: docScanAsset_def)
  from search_ranking[of ?q ?es]
  have "\<forall>(i, s) \<in> set (rankedScores (mkIndex ?es) ?q).
          distinct (docKeywords (?es ! i)) \<longrightarrow>
            s = length (filter (\<lambda>k. k \<in> set (docKeywords (?es ! i))) (extractKeywordsFromText ?q))"
    unfolding Let_def by fast
  from bspec[OF this m] d
  have w1: "(3::nat) = length (filter (\<lambda>k. k \<in> set (docKeywords (?es ! 0))) (extractKeywordsFromText ?q))"
    by fast
  let ?acc = "accumulateScores (keywordMap (mkIndex elevenDocs)) (extractKeywordsFromText ''scan asset'')"
  let ?r = "rankedScores (mkIndex elevenDocs) ''scan asset''"
  have r: "?r = [(10, 2), (0, 1), (1, 1), (2, 1), (3, 1), (4, 1), (5, 1), (6, 1), (7, 1), (8, 1)]"
    by code_simp
  have "?acc = [(0, 1), (1, 1), (2, 1), (3, 1), (4, 1), (5, 1), (6, 1), (7, 1), (8, 1), (9, 1), (10, 2)]"
    by code_simp
  then have a: "(9, 1) \<in> set ?acc" by simp
  have n: "(9, 1) \<notin> set ?r" unfolding r by simp
  have t: "(10, 2) \<in> set ?r" unfolding r by simp
  from search_ranking[of "''scan asset''" elevenDocs]
  have "\<forall>p \<in> set ?acc. p \<notin> set ?r \<longrightarrow> (\<forall>q \<in> set ?r. snd p \<le> snd q)"
    unfolding Let_def by fast
  with a n t have w2: "snd (9 :: nat, 1 :: nat) \<le> snd (10 :: nat, 2 :: nat)"
    by fast
  from m d w1 r a n t w2 show ?thesis by blast
qed

text \<open>C2 as stated fails twice. Ties follow the order of first hit, not the entry order: with
  the entries \<open>[asset-entry, scan-entry]\<close> the query \<open>scan asset\<close> gives both score 1 and
  returns the second entry first. And a token repeated in the query counts each time: the
  query \<open>scan scan\<close> has one distinct token, and the entry scores 2.\<close>

theorem search_ranking_counterexample:
  "rankedScores (mkIndex [docAsset, docScan]) ''scan asset'' = [(1, 1), (0, 1)]
   \<and> searchIndexInternal (Some (mkIndex [docAsset, docScan])) ''scan asset''
        = [Some docScan, Some docAsset]
   \<and> rankedScores (mkIndex [docScan]) ''scan scan'' = [(0, 2)]
   \<and> card (set (extractKeywordsFromText ''scan scan'')) = 1"
proof -
  have a: "rankedScores (mkIndex [docAsset, docScan]) ''scan asset'' = [(1, 1), (0, 1)]"
    by code_simp
  have b: "searchIndexInternal (Some (mkIndex [docAsset, docScan])) ''scan asset''
        = [Some docScan, Some docAsset]"
    by code_simp
  have c: "rankedScores (mkIndex [docScan]) ''scan scan'' = [(0, 2)]"
    by code_simp
  have "extractKeywordsFromText ''scan scan'' = [''scan'', ''scan'']"
    by code_simp
  then have d: "card (set (extractKeywordsFromText ''scan scan'')) = 1"
    by simp
  from a b c d show ?thesis by blast
qed

section \<open>Query validation, fallback results, keyword extraction\<close>

text \<open>C4 (query validation). A query whose trimmed length is below 2 or above 200 makes
  \<open>searchDocs\<close> fail with a \<open>ValidationError\<close>, and the index is not asked: the list of
  index lookups is empty.\<close>

theorem searchDocs_rejects_bad_length:
  "length (trim query) < 2 \<or> 200 < length (trim query) \<Longrightarrow>
   \<exists>msg. searchDocs searchIndex query = (Inl (ValidationError msg), [])"
  by (auto simp: searchDocs_def validateSearchQuery_def Let_def)

text \<open>Both cases: a one-letter query between blanks, and a query of 201 letters.\<close>

theorem searchDocs_rejects_bad_length_witness:
  "length (trim '' a '') < 2
   \<and> (\<exists>msg. searchDocs (Some (mkIndex [docScan])) '' a '' = (Inl (ValidationError msg), []))
   \<and> 200 < length (trim (replicate 201 (CHR ''a'')))
   \<and> (\<exists>msg. searchDocs None (replicate 201 (CHR ''a'')) = (Inl (ValidationError msg), []))"
proof -
  have s: "length (trim '' a '') < 2"
    by (simp add: trim_def isWhiteSpace_def)
  have "dropWhile isWhiteSpace (replicate 201 (CHR ''a'')) = replicate 201 (CHR ''a'')"
    by (rule dropWhile_eq_self_iff[THEN iffD2]) (simp add: isWhiteSpace_def)
  then have "trim (replicate 201 (CHR ''a'')) = replicate 201 (CHR ''a'')"
    by (simp add: trim_def)
  then have l: "200 < length (trim (replicate 201 (CHR ''a'')))"
    by simp
  from searchDocs_rejects_bad_length[of "'' a ''" "Some (mkIndex [docScan])"] s
       searchDocs_rejects_bad_length[of "replicate 201 (CHR ''a'')" None] l
  show ?thesis by blast
qed

lemma search_None: "search None query = []"
  by (simp add: search_def)

lemma search_mkIndex:
  "search (Some (mkIndex es)) query = map (\<lambda>p. Some (es ! fst p)) (rankedScores (mkIndex es) query)"
  by (simp add: search_def searchIndexInternal_mkIndex)

text \<open>C10 (no empty answer). For a query that passes validation, on an index that is not
  initialised or was built from any list of entries, \<open>searchDocs\<close> returns a non-empty
  list after one index lookup: the three fallback results (reference, recipes,
  api-explorer) when the lookup finds nothing, the found entries otherwise. The lookup
  finds nothing when the index is not initialised or is empty.\<close>

theorem searchDocs_never_empty:
  assumes "validateSearchQuery query = None"
    and "searchIndex = None \<or> searchIndex = Some (mkIndex es)"
  shows "(\<exists>results. searchDocs searchIndex query = (Inr results, [query]) \<and> results \<noteq> []
            \<and> (search searchIndex query = [] \<longrightarrow> results = getFallbackResults)
            \<and> (search searchIndex query \<noteq> [] \<longrightarrow>
                  results = map (\<lambda>entry. toSearchResult (the entry)) (search searchIndex query)))
         \<and> search None query = []
         \<and> search (Some (mkIndex [])) query = []
         \<and> map url getFallbackResults =
             [''https://developer.tenable.com/reference'',
              ''https://developer.tenable.com/recipes'',
              ''https://developer.tenable.com/api-explorer'']"
proof -
  have n: "None \<notin> set (search searchIndex query)"
    using assms(2) by (auto simp: search_None search_mkIndex)
  have f: "getFallbackResults \<noteq> []"
    by (simp add: getFallbackResults_def)
  have a: "\<exists>results. searchDocs searchIndex query = (Inr results, [query]) \<and> results \<noteq> []
            \<and> (search searchIndex query = [] \<longrightarrow> results = getFallbackResults)
            \<and> (search searchIndex query \<noteq> [] \<longrightarrow>
                  results = map (\<lambda>entry. toSearchResult (the entry)) (search searchIndex query))"
    using assms(1) n f by (simp add: searchDocs_def Let_def)
  have "rankedScores (mkIndex []) query = []"
    using in_rankedScores(1)[of _ _ "[]" query] by (cases "rankedScores (mkIndex []) query") auto
  then have b: "search (Some (mkIndex [])) query = []"
    by (simp add: search_mkIndex)
  have c: "map url getFallbackResults =
             [''https://developer.tenable.com/reference'',
              ''https://developer.tenable.com/recipes'',
              ''https://developer.tenable.com/api-explorer'']"
    by (simp add: getFallbackResults_def)
  from a b c search_None show ?thesis by blast
qed

text \<open>A valid query without a match gets the fallback list, a valid query with a match
  gets a non-empty list.\<close>

theorem searchDocs_never_empty_witness:
  "validateSearchQuery ''policies'' = None
   \<and> searchDocs (Some (mkIndex [docScanAsset, docScan])) ''policies''
       = (Inr getFallbackResults, [''policies''])
   \<and> validateSearchQuery ''scan'' = None
   \<and> (\<exists>results. searchDocs (Some (mkIndex [docScanAsset, docScan])) ''scan''
         = (Inr results, [''scan'']) \<and> results \<noteq> [])"
proof -
  let ?idx = "Some (mkIndex [docScanAsset, docScan])"
  have v: "validateSearchQuery ''policies'' = None" "validateSearchQuery ''scan'' = None"
    by (simp_all add: validateSearchQuery_def trim_def isWhiteSpace_def)
  have z: "search ?idx ''policies'' = []"
    by code_simp
  from searchDocs_never_empty[OF v(1), of ?idx "[docScanAsset, docScan]"] z
  have p: "searchDocs ?idx ''policies'' = (Inr getFallbackResults, [''policies''])"
    by auto
  from searchDocs_never_empty[OF v(2), of ?idx "[docScanAsset, docScan]"]
  have q: "\<exists>results. searchDocs ?idx ''scan'' = (Inr results, [''scan'']) \<and> results \<noteq> []"
    by blast
  from v p q show ?thesis by blast
qed

text \<open>C8 (keyword extraction, as the code has it). Both extractors are total and return no
  keyword for the empty input (the URL variant also for a URL that does not parse, and for
  one that parses it works on the path name). The keywords of the text extractor are
  exactly the tokens of the lowercased text without its non-word, non-hyphen characters
  (the stretches between white space) that are longer than two characters and are not
  stop words; so they consist of word characters and hyphens, none upper case, none white
  space. The URL variant is another pipeline: its keywords are exactly the lowercased
  tokens of the path (the stretches between slashes, hyphens, underscores and white space)
  that are longer than two characters. Nothing else is discarded there: stop words and
  characters outside the word class stay, as the two evaluated paths show.\<close>

theorem keyword_extraction:
  "extractKeywordsFromText [] = []
   \<and> extractKeywordsFromPath [] = []
   \<and> (parse u = None \<longrightarrow> extractKeywordsFromUrl parse u = [])
   \<and> (\<forall>urlObj. parse u = Some urlObj \<longrightarrow>
         extractKeywordsFromUrl parse u = extractKeywordsFromPath (pathname urlObj))
   \<and> (kw \<in> set (extractKeywordsFromText t) \<longleftrightarrow>
         2 < length kw \<and> kw \<notin> set stopWords \<and> isRun isWhiteSpace kw (strippedText t))
   \<and> (kw \<in> set (extractKeywordsFromPath p) \<longleftrightarrow>
         2 < length kw \<and> (\<exists>v. kw = toLowerCase v \<and> isRun isPathSeparator v p))
   \<and> (\<forall>w \<in> set (extractKeywordsFromText t).
         2 < length w \<and> w \<notin> set stopWords \<and>
         (\<forall>c \<in> set w. (isWordChar c \<or> c = CHR ''-'') \<and> \<not> isUpperChar c \<and> \<not> isWhiteSpace c))
   \<and> (\<forall>w \<in> set (extractKeywordsFromPath p).
         2 < length w \<and>
         (\<forall>c \<in> set w. c \<notin> {CHR ''/'', CHR ''-'', CHR ''_''} \<and> \<not> isUpperChar c \<and> \<not> isWhiteSpace c))
   \<and> (\<forall>w \<in> set (extractKeywordsFromUrl parse u).
         2 < length w \<and>
         (\<forall>c \<in> set w. c \<notin> {CHR ''/'', CHR ''-'', CHR ''_''} \<and> \<not> isUpperChar c \<and> \<not> isWhiteSpace c))
   \<and> extractKeywordsFromPath ''/reference/the-api/io_scans'' = [''reference'', ''the'', ''api'', ''scans'']
   \<and> extractKeywordsFromPath ''/scans/export.csv'' = [''scans'', ''export.csv'']"
proof -
  have a: "extractKeywordsFromText [] = []"
    by (simp add: extractKeywordsFromText_def toLowerCase_def splitWs_def)
  have b: "extractKeywordsFromPath [] = []"
    by (simp add: extractKeywordsFromPath_def trim_def replaceChar_def)
  have c: "parse u = None \<longrightarrow> extractKeywordsFromUrl parse u = []"
    by (simp add: extractKeywordsFromUrl_def)
  have c': "\<forall>urlObj. parse u = Some urlObj \<longrightarrow>
         extractKeywordsFromUrl parse u = extractKeywordsFromPath (pathname urlObj)"
    by (simp add: extractKeywordsFromUrl_def)
  have tk: "kw \<in> set (extractKeywordsFromText t) \<longleftrightarrow>
         2 < length kw \<and> kw \<notin> set stopWords \<and> isRun isWhiteSpace kw (strippedText t)"
    by (rule text_keyword_iff)
  have q: "kw \<in> set (extractKeywordsFromPath p) \<longleftrightarrow>
         2 < length kw \<and> (\<exists>v. kw = toLowerCase v \<and> isRun isPathSeparator v p)"
    by (rule path_keyword_iff)
  have d: "\<forall>w \<in> set (extractKeywordsFromText t).
         2 < length w \<and> w \<notin> set stopWords \<and>
         (\<forall>c \<in> set w. (isWordChar c \<or> c = CHR ''-'') \<and> \<not> isUpperChar c \<and> \<not> isWhiteSpace c)"
    using text_keyword_word text_keyword_chars by blast
  have e: "\<forall>w \<in> set (extractKeywordsFromPath p).
         2 < length w \<and>
         (\<forall>c \<in> set w. c \<notin> {CHR ''/'', CHR ''-'', CHR ''_''} \<and> \<not> isUpperChar c \<and> \<not> isWhiteSpace c)"
    for p
    using path_keyword_word[of _ p] path_keyword_chars[of _ p] by blast
  have f: "\<forall>w \<in> set (extractKeywordsFromUrl parse u).
         2 < length w \<and>
         (\<forall>c \<in> set w. c \<notin> {CHR ''/'', CHR ''-'', CHR ''_''} \<and> \<not> isUpperChar c \<and> \<not> isWhiteSpace c)"
  proof (cases "parse u")
    case None
    then show ?thesis by (simp add: extractKeywordsFromUrl_def)
  next
    case (Some urlObj)
    then show ?thesis using e[of "pathname urlObj"] by (simp add: extractKeywordsFromUrl_def)
  qed
  have g: "extractKeywordsFromPath ''/reference/the-api/io_scans'' = [''reference'', ''the'', ''api'', ''scans'']"
    by code_simp
  have h: "extractKeywordsFromPath ''/scans/export.csv'' = [''scans'', ''export.csv'']"
    by code_simp
  show ?thesis
    by (intro conjI a b c c' tk q d e f g h)
qed

text \<open>The statement at a text and at paths. The path \<open>/reference/The-API\<close> has the token
  \<open>The\<close> between a slash and a hyphen, so \<open>the\<close> is a keyword of the path, stop word or
  not; and \<open>io\<close> is a token of \<open>/io_scans\<close> that is too short to be a keyword.\<close>

theorem keyword_extraction_witness:
  "''vulnerability-management'' \<in> set (extractKeywordsFromText ''The Vulnerability-Management API!'')
   \<and> isRun isWhiteSpace ''vulnerability-management'' (strippedText ''The Vulnerability-Management API!'')
   \<and> \<not> isRun isWhiteSpace ''vulnerability'' (strippedText ''The Vulnerability-Management API!'')
   \<and> isRun isPathSeparator ''The'' ''/reference/The-API''
   \<and> ''the'' \<in> set (extractKeywordsFromPath ''/reference/The-API'')
   \<and> isRun isPathSeparator ''io'' ''/io_scans''
   \<and> ''io'' \<notin> set (extractKeywordsFromPath ''/io_scans'')
   \<and> 2 < length ''vulnerability-management''
   \<and> ''vulnerability-management'' \<notin> set stopWords"
proof -
  let ?t = "''The Vulnerability-Management API!''"
  have m: "extractKeywordsFromText ?t = [''vulnerability-management'']"
    by code_simp
  then have m1: "''vulnerability-management'' \<in> set (extractKeywordsFromText ?t)"
    and m2: "''vulnerability'' \<notin> set (extractKeywordsFromText ?t)"
    by simp_all
  have s: "''vulnerability'' \<notin> set stopWords" "''vulnerability-management'' \<notin> set stopWords"
    by (simp_all add: stopWords_def)
  from keyword_extraction[where parse = "\<lambda>_. None" and u = "[]" and kw = "''vulnerability-management''"
         and t = ?t and p = "[]", THEN conjunct2, THEN conjunct2, THEN conjunct2, THEN conjunct2, THEN conjunct1] m1
  have r1: "isRun isWhiteSpace ''vulnerability-management'' (strippedText ?t)"
    by blast
  have "2 < length ''vulnerability''" by simp
  with keyword_extraction[where parse = "\<lambda>_. None" and u = "[]" and kw = "''vulnerability''"
         and t = ?t and p = "[]", THEN conjunct2, THEN conjunct2, THEN conjunct2, THEN conjunct2, THEN conjunct1] m2 s(1)
  have r2: "\<not> isRun isWhiteSpace ''vulnerability'' (strippedText ?t)"
    by blast
  have sepf: "\<forall>c \<in> set ''The''. \<not> isPathSeparator c" "\<forall>c \<in> set ''io''. \<not> isPathSeparator c"
    by (simp_all add: isPathSeparator_def isWhiteSpace_def)
  have "''/reference/The-API'' = ''/reference/'' @ ''The'' @ ''-API''
          \<and> (''/reference/'' = [] \<or> isPathSeparator (last ''/reference/''))
          \<and> (''-API'' = [] \<or> isPathSeparator (hd ''-API''))"
    by (simp add: isPathSeparator_def)
  then have r3: "isRun isPathSeparator ''The'' ''/reference/The-API''"
    unfolding isRun_def using sepf(1) by blast
  have lc: "''the'' = toLowerCase ''The''" by code_simp
  have "2 < length ''the''" by simp
  with keyword_extraction[where parse = "\<lambda>_. None" and u = "[]" and kw = "''the''"
         and t = "[]" and p = "''/reference/The-API''", THEN conjunct2, THEN conjunct2, THEN conjunct2, THEN conjunct2, THEN conjunct2,
         THEN conjunct1] r3 lc
  have k1: "''the'' \<in> set (extractKeywordsFromPath ''/reference/The-API'')"
    by blast
  have "''/io_scans'' = ''/'' @ ''io'' @ ''_scans''
          \<and> (''/'' = [] \<or> isPathSeparator (last ''/''))
          \<and> (''_scans'' = [] \<or> isPathSeparator (hd ''_scans''))"
    by (simp add: isPathSeparator_def)
  then have r4: "isRun isPathSeparator ''io'' ''/io_scans''"
    unfolding isRun_def using sepf(2) by blast
  have "\<not> 2 < length ''io''" by simp
  with keyword_extraction[where parse = "\<lambda>_. None" and u = "[]" and kw = "''io''"
         and t = "[]" and p = "''/io_scans''", THEN conjunct2, THEN conjunct2, THEN conjunct2, THEN conjunct2, THEN conjunct2,
         THEN conjunct1]
  have k2: "''io'' \<notin> set (extractKeywordsFromPath ''/io_scans'')"
    by blast
  have l: "2 < length ''vulnerability-management''" by simp
  from m1 r1 r2 r3 k1 r4 k2 l s(2) show ?thesis by blast
qed

text \<open>C8 as stated fails for the URL variant: it does not discard the stop words. The path
  \<open>/reference/the-api\<close> gives the keywords \<open>the\<close> and \<open>api\<close>, which the text extractor
  drops.\<close>

theorem keyword_extraction_counterexample:
  "extractKeywordsFromPath ''/reference/the-api'' = [''reference'', ''the'', ''api'']
   \<and> extractKeywordsFromText ''reference the api'' = [''reference'']
   \<and> ''the'' \<in> set stopWords \<and> ''api'' \<in> set stopWords"
proof -
  have a: "extractKeywordsFromPath ''/reference/the-api'' = [''reference'', ''the'', ''api'']"
    by code_simp
  have b: "extractKeywordsFromText ''reference the api'' = [''reference'']"
    by code_simp
  have c: "''the'' \<in> set stopWords \<and> ''api'' \<in> set stopWords"
    by (simp add: stopWords_def)
  from a b c show ?thesis by blast
qed

section \<open>The cache: expiry and eviction\<close>

text \<open>With keys that are not empty the eviction does what it is meant to do. A fresh
  cache that receives one more distinct key than its capacity holds the entries of all
  keys but the first, in order; the first key is absent, and each other key gives its
  value while its age is at most the TTL. And \<open>set\<close> always leaves the key at the end of
  \<open>accessOrder\<close> with a new entry: the value, the time of the call, no hits.\<close>

lemma update_fresh: "k \<notin> fst ` set al \<Longrightarrow> AList.update k v al = al @ [(k, v)]"
  by (induction al) auto

lemma fst_entryOf [simp]: "fst (entryOf kvt) = fst kvt"
  by (simp add: entryOf_def)

lemma keys_entryOf [simp]: "map fst (map entryOf kvs) = map fst kvs"
  by (simp add: comp_def)

lemma setAll_snoc: "setAll c (kvs @ [x]) = LRUCache_set (setAll c kvs) (fst x) (fst (snd x)) (snd (snd x))"
  by (simp add: setAll_def case_prod_beta)

lemma set_fresh_key:
  assumes "k \<notin> fst ` set (cache c)" and "int (length (cache c)) < maxSize c"
  shows "LRUCache_set c k v t
           = c\<lparr>cache := cache c @ [entryOf (k, v, t)], accessOrder := accessOrder c @ [k]\<rparr>"
proof -
  have "map_of (cache c) k = None"
    using assms(1) by (simp add: map_of_eq_None_iff)
  then show ?thesis
    using assms by (simp add: LRUCache_set_def Let_def update_fresh entryOf_def)
qed

lemma setAll_below_capacity:
  assumes "cache c = []" and "accessOrder c = []"
  shows "distinct (map fst kvs) \<Longrightarrow> int (length kvs) \<le> maxSize c \<Longrightarrow>
         setAll c kvs = c\<lparr>cache := map entryOf kvs, accessOrder := map fst kvs\<rparr>"
proof (induction kvs rule: rev_induct)
  case Nil
  then show ?case using assms by (simp add: setAll_def)
next
  case (snoc x kvs)
  then have ih: "setAll c kvs = c\<lparr>cache := map entryOf kvs, accessOrder := map fst kvs\<rparr>"
    by simp
  have k: "fst x \<notin> fst ` set (cache (setAll c kvs))"
    using snoc.prems(1) by (simp add: ih image_image)
  have l: "int (length (cache (setAll c kvs))) < maxSize (setAll c kvs)"
    using snoc.prems(2) by (simp add: ih)
  show ?case
    unfolding setAll_snoc set_fresh_key[OF k l]
    by (simp add: ih)
qed

lemma delete_head_entries:
  assumes "distinct (map fst (x # kvs))"
  shows "AList.delete (fst x) (map entryOf (x # kvs)) = map entryOf kvs"
proof -
  have "fst x \<notin> fst ` set (map entryOf kvs)"
    using assms by (simp add: image_image)
  then show ?thesis by simp
qed

lemma lru_eviction_nonempty_keys:
  assumes c: "cache c = []" "accessOrder c = []"
    and d: "distinct (map fst (x # kvs))"
    and x: "fst x \<noteq> []"
    and n: "kvs \<noteq> []" "int (length kvs) = maxSize c"
  shows "setAll c (x # kvs) = c\<lparr>cache := map entryOf kvs, accessOrder := map fst kvs\<rparr>"
proof -
  let ?ini = "x # butlast kvs"
  let ?l = "last kvs"
  have split: "x # kvs = ?ini @ [?l]" using n(1) by simp
  have di: "distinct (map fst ?ini)"
    using d by (metis split distinct_append map_append)
  have li: "int (length ?ini) \<le> maxSize c"
    using n by simp
  have s: "setAll c ?ini = c\<lparr>cache := map entryOf ?ini, accessOrder := map fst ?ini\<rparr>"
    by (rule setAll_below_capacity[OF c di li])
  have nk: "fst ?l \<notin> fst ` set ?ini"
    using d unfolding split by (simp add: image_image) metis
  have dh: "AList.delete (fst x) (map entryOf ?ini) = map entryOf (butlast kvs)"
    by (rule delete_head_entries) (use di in simp)
  have nl: "fst ?l \<notin> fst ` set (map entryOf (butlast kvs))"
    using nk by (auto simp: image_image)
  have mo: "map_of (map entryOf ?ini) (fst ?l) = None"
    using nk by (simp add: map_of_eq_None_iff image_image)
  have "LRUCache_set (setAll c ?ini) (fst ?l) (fst (snd ?l)) (snd (snd ?l))
          = c\<lparr>cache := map entryOf (butlast kvs) @ [entryOf ?l],
               accessOrder := map fst (butlast kvs) @ [fst ?l]\<rparr>"
    unfolding s LRUCache_set_def Let_def
    using mo x n dh update_fresh[OF nl]
    by (simp add: entryOf_def)
  moreover have "map entryOf (butlast kvs) @ [entryOf ?l] = map entryOf kvs"
    using n(1) by (metis append_butlast_last_id list.simps(8,9) map_append)
  moreover have "map fst (butlast kvs) @ [fst ?l] = map fst kvs"
    using n(1) by (metis append_butlast_last_id list.simps(8,9) map_append)
  ultimately show ?thesis
    by (metis split setAll_snoc)
qed

lemma lru_eviction_gets:
  assumes c: "cache c = []" "accessOrder c = []"
    and d: "distinct (map fst (x # kvs))"
    and x: "fst x \<noteq> []"
    and n: "kvs \<noteq> []" "int (length kvs) = maxSize c"
  shows "fst (LRUCache_get (setAll c (x # kvs)) (fst x) now) = None"
    and "(k, v, t) \<in> set kvs \<Longrightarrow> now - t \<le> ttl c \<Longrightarrow>
           fst (LRUCache_get (setAll c (x # kvs)) k now) = Some v"
proof -
  note s = lru_eviction_nonempty_keys[OF c d x n]
  have "map_of (map entryOf kvs) (fst x) = None"
    using d by (simp add: map_of_eq_None_iff image_image)
  then show "fst (LRUCache_get (setAll c (x # kvs)) (fst x) now) = None"
    by (simp add: s LRUCache_get_def)
  assume m: "(k, v, t) \<in> set kvs" and t: "now - t \<le> ttl c"
  have "distinct (map fst (map entryOf kvs))" using d unfolding keys_entryOf by simp
  moreover have "entryOf (k, v, t) \<in> set (map entryOf kvs)" using m by force
  ultimately have "map_of (map entryOf kvs) k = Some \<lparr>data = v, timestamp = t, hits = 0\<rparr>"
    by (metis map_of_is_SomeI entryOf_def fst_conv snd_conv)
  then show "fst (LRUCache_get (setAll c (x # kvs)) k now) = Some v"
    using t by (simp add: s LRUCache_get_def Let_def)
qed

lemma set_lands_last:
  "map_of (cache (LRUCache_set c k v now)) k = Some \<lparr>data = v, timestamp = now, hits = 0\<rparr>
   \<and> last (accessOrder (LRUCache_set c k v now)) = k"
  by (simp add: LRUCache_set_def Let_def AList.update_conv')

text \<open>C9 (TTL expiry). When a key is cached and \<open>now - timestamp > ttl\<close>, \<open>get\<close> returns
  absent and leaves a cache without the key, on which \<open>has\<close> is false at any later
  time. And whatever \<open>get\<close> returns is the data of an entry whose age is at most the
  TTL.\<close>

theorem ttl_expiry:
  "(map_of (cache c) k = Some e \<and> now - timestamp e > ttl c \<longrightarrow>
      fst (LRUCache_get c k now) = None
      \<and> map_of (cache (snd (LRUCache_get c k now))) k = None
      \<and> fst (LRUCache_has (snd (LRUCache_get c k now)) k now') = False)
   \<and> (fst (LRUCache_get c k now) = Some v \<longrightarrow>
        (\<exists>e. map_of (cache c) k = Some e \<and> data e = v \<and> now - timestamp e \<le> ttl c))"
  by (auto simp: LRUCache_get_def LRUCache_has_def LRUCache_delete_def AList.delete_conv' Let_def
           split: option.splits if_splits)

text \<open>A cache with a TTL of 1000 ms and one entry written at time 0: read at time 1001 the
  entry is expired, read at time 1000 it is returned.\<close>

theorem ttl_expiry_witness:
  "map_of (cache (LRUCache_set (newLRUCache (Some 2) (Some 1000)) ''k'' ''v'' 0)) ''k''
     = Some \<lparr>data = ''v'', timestamp = 0, hits = 0\<rparr>
   \<and> 1001 - timestamp \<lparr>data = ''v'', timestamp = 0, hits = 0\<rparr>
        > ttl (LRUCache_set (newLRUCache (Some 2) (Some 1000)) ''k'' ''v'' 0)
   \<and> fst (LRUCache_get (LRUCache_set (newLRUCache (Some 2) (Some 1000)) ''k'' ''v'' 0) ''k'' 1001) = None
   \<and> fst (LRUCache_has (snd (LRUCache_get (LRUCache_set (newLRUCache (Some 2) (Some 1000)) ''k'' ''v'' 0)
              ''k'' 1001)) ''k'' 1002) = False
   \<and> fst (LRUCache_get (LRUCache_set (newLRUCache (Some 2) (Some 1000)) ''k'' ''v'' 0) ''k'' 1000)
        = Some ''v''"
proof -
  let ?c = "LRUCache_set (newLRUCache (Some 2) (Some 1000)) ''k'' ''v'' 0 :: string LRUCache"
  let ?e = "\<lparr>data = ''v'', timestamp = 0, hits = 0\<rparr> :: string CacheEntry"
  have m: "map_of (cache ?c) ''k'' = Some ?e"
    by (simp add: LRUCache_set_def newLRUCache_def Let_def)
  have t: "1001 - timestamp ?e > ttl ?c"
    by (simp add: LRUCache_set_def newLRUCache_def Let_def)
  have g: "fst (LRUCache_get ?c ''k'' 1000) = Some ''v''"
    by (simp add: LRUCache_get_def LRUCache_set_def newLRUCache_def Let_def)
  from ttl_expiry[of ?c "''k''" ?e 1001 1002] m t
  have "fst (LRUCache_get ?c ''k'' 1001) = None
        \<and> fst (LRUCache_has (snd (LRUCache_get ?c ''k'' 1001)) ''k'' 1002) = False"
    by blast
  with m t g show ?thesis by blast
qed

text \<open>C3 (LRU eviction) at the empty key. A cache of capacity 1 receives the key \<open>''\<close> and
  then the key \<open>a\<close>. The second \<open>set\<close> finds the cache full and shifts \<open>''\<close> out of
  \<open>accessOrder\<close>, but \<open>if (lruKey)\<close> is false for the empty string and the entry stays in
  the map: the cache holds two entries, and \<open>get\<close> of the first-inserted key returns its
  value.\<close>

theorem lru_eviction_empty_key:
  "fst (LRUCache_get
          (LRUCache_set (LRUCache_set (newLRUCache (Some 1) None) [] ''first'' 0) ''a'' ''second'' 1)
          [] 2) = Some ''first''
   \<and> map fst (cache (LRUCache_set (LRUCache_set (newLRUCache (Some 1) None) [] ''first'' 0)
                       ''a'' ''second'' 1)) = [[], ''a'']
   \<and> accessOrder (LRUCache_set (LRUCache_set (newLRUCache (Some 1) None) [] ''first'' 0)
                    ''a'' ''second'' 1) = [''a'']
   \<and> maxSize (LRUCache_set (LRUCache_set (newLRUCache (Some 1) None) [] ''first'' 0)
                    ''a'' ''second'' 1) = 1"
  by (simp add: LRUCache_get_def LRUCache_set_def newLRUCache_def LRUCache_delete_def Let_def)

section \<open>The page reader: whitelist and 404 fallback\<close>

lemma endsWith_iff: "endsWith s suf \<longleftrightarrow> (\<exists>p. s = p @ suf)"
proof
  assume "endsWith s suf"
  then have "s = take (length s - length suf) s @ suf"
    by (metis append_take_drop_id endsWith_def)
  then show "\<exists>p. s = p @ suf" by blast
next
  assume "\<exists>p. s = p @ suf"
  then show "endsWith s suf" by (auto simp: endsWith_def)
qed

lemma validateUrl_foreign:
  assumes "\<forall>u. parse (trim inputUrl) = Some u \<longrightarrow>
             \<not> (\<exists>d \<in> set ALLOWED_DOMAINS.
                   toLowerCase (hostname u) = d \<or> (\<exists>sub. toLowerCase (hostname u) = sub @ ''.'' @ d))"
  shows "\<exists>msg. validateUrl parse inputUrl = Some (ValidationError msg)"
proof (cases "parse (trim inputUrl)")
  case None
  then show ?thesis by (simp add: validateUrl_def Let_def)
next
  case (Some u)
  with assms have "\<not> list_ex (\<lambda>allowedDomain. toLowerCase (hostname u) = allowedDomain
                      \<or> endsWith (toLowerCase (hostname u)) (''.'' @ allowedDomain)) ALLOWED_DOMAINS"
    unfolding list_ex_iff endsWith_iff by blast
  with Some show ?thesis by (simp add: validateUrl_def Let_def)
qed

text \<open>C6 (domain whitelist). When the host of the URL, in lower case, neither is one of the
  allowed domains nor ends with a dot and an allowed domain (is a subdomain of one), and
  also when the URL does not parse, \<open>readPage\<close> fails with a \<open>ValidationError\<close>, the
  cache is as before, and nothing was fetched.\<close>

theorem readPage_rejects_foreign_host:
  assumes "\<forall>u. parseUrl e (trim inputUrl) = Some u \<longrightarrow>
             \<not> (\<exists>d \<in> set ALLOWED_DOMAINS.
                   toLowerCase (hostname u) = d \<or> (\<exists>sub. toLowerCase (hostname u) = sub @ ''.'' @ d))"
  shows "\<exists>msg. readPage e pageCache tGet tSet inputUrl = (Inl (ValidationError msg), pageCache, [])"
  using validateUrl_foreign[of "parseUrl e" inputUrl, OF assms] by (auto simp: readPage_def)

lemma validateUrl_passes:
  "validateUrl parse inputUrl = None \<Longrightarrow> \<exists>u. parse (trim inputUrl) = Some u"
  by (auto simp: validateUrl_def Let_def split: if_splits option.splits)

lemma content_notFoundPage: "\<exists>front back. content (notFoundPage u) = front @ u @ back"
  unfolding notFoundPage_def by (simp del: append_assoc) blast

lemma handle404Fallback_cases:
  assumes "parseUrl e u = Some urlObj"
  shows "\<exists>doc. handle404Fallback e fetched u
            = (Some doc, if firstPartIsReference (pathname urlObj) then [fallbackUrl] else [])
          \<and> (doc = notFoundPage u
              \<or> (firstPartIsReference (pathname urlObj) \<and> pageUrl doc = fallbackUrl
                  \<and> (\<exists>md. content doc = notFoundNote u @ md)))"
  using assms
  by (auto simp: handle404Fallback_def split: sum.splits prod.splits)

lemma handle404Fallback_success:
  assumes "parseUrl e u = Some urlObj" and "firstPartIsReference (pathname urlObj)"
    and "downloadHTML e fetched fallbackUrl = Inr refPage" and "statusCode refPage = 200"
    and "convert e (html refPage) = Inr (md, wc)"
  shows "fst (handle404Fallback e fetched u)
           = Some \<lparr>pageUrl = fallbackUrl,
                   pageTitle = titleOr (extractTitle e (html refPage)) ''Tenable API Reference'',
                   content = notFoundNote u @ cleanMarkdown md,
                   wordCount = wc\<rparr>"
  using assms by (simp add: handle404Fallback_def)

lemma handle404Fallback_failure:
  assumes "parseUrl e u = Some urlObj"
    and "\<not> (firstPartIsReference (pathname urlObj) \<and>
            (\<exists>refPage md wc. downloadHTML e fetched fallbackUrl = Inr refPage
                \<and> statusCode refPage = 200 \<and> convert e (html refPage) = Inr (md, wc)))"
  shows "fst (handle404Fallback e fetched u) = Some (notFoundPage u)"
proof (cases "firstPartIsReference (pathname urlObj)")
  case False
  then show ?thesis using assms(1) by (simp add: handle404Fallback_def)
next
  case True
  with assms(2) have n: "\<not> (\<exists>refPage md wc. downloadHTML e fetched fallbackUrl = Inr refPage
                \<and> statusCode refPage = 200 \<and> convert e (html refPage) = Inr (md, wc))"
    by blast
  show ?thesis
  proof (cases "downloadHTML e fetched fallbackUrl")
    case (Inl err)
    then show ?thesis using assms(1) True by (simp add: handle404Fallback_def)
  next
    case (Inr refPage)
    show ?thesis
    proof (cases "statusCode refPage = 200")
      case False
      then show ?thesis using assms(1) True Inr by (simp add: handle404Fallback_def)
    next
      case s: True
      with n Inr have "\<not> (\<exists>md wc. convert e (html refPage) = Inr (md, wc))" by blast
      then obtain err where "convert e (html refPage) = Inl err"
        by (cases "convert e (html refPage)") auto
      then show ?thesis using assms(1) True Inr s by (simp add: handle404Fallback_def)
    qed
  qed
qed

text \<open>C5 (404 fallback, as the code has it). For a URL that passes validation and is not
  served from the cache, when the fetch answers 404, \<open>readPage\<close> returns a document, not
  an error, stores it in the cache, and the content of the document contains the requested
  URL (trimmed) literally. The root reference page is fetched only when the first part of
  the URL's path is \<open>reference\<close>. When that fetch answers 200 and the page converts, the
  document is the note about the requested URL followed by the cleaned Markdown of the
  reference page, under the URL of the reference page. In every other case (the path is
  not under \<open>reference\<close>, the fetch fails or does not answer 200, the conversion fails)
  the document is the static page, and for a path not under \<open>reference\<close> nothing more is
  fetched.\<close>

theorem readPage_404_fallback:
  assumes "validateUrl (parseUrl e) inputUrl = None"
    and "fst (LRUCache_get pageCache (createCacheKey (trim inputUrl)) tGet) = None"
    and "downloadHTML e [] (trim inputUrl) = Inr htmlContent"
    and "statusCode htmlContent = 404"
  shows "\<exists>doc urlObj.
           parseUrl e (trim inputUrl) = Some urlObj
         \<and> readPage e pageCache tGet tSet inputUrl
             = (Inr doc,
                LRUCache_set (snd (LRUCache_get pageCache (createCacheKey (trim inputUrl)) tGet))
                  (createCacheKey (trim inputUrl)) doc tSet,
                if firstPartIsReference (pathname urlObj) then [trim inputUrl, fallbackUrl]
                else [trim inputUrl])
         \<and> (\<exists>front back. content doc = front @ trim inputUrl @ back)
         \<and> (doc = notFoundPage (trim inputUrl)
             \<or> (firstPartIsReference (pathname urlObj) \<and> pageUrl doc = fallbackUrl
                 \<and> (\<exists>md. content doc = notFoundNote (trim inputUrl) @ md)))
         \<and> (\<forall>refPage md wc.
               firstPartIsReference (pathname urlObj)
               \<and> downloadHTML e [trim inputUrl] fallbackUrl = Inr refPage
               \<and> statusCode refPage = 200
               \<and> convert e (html refPage) = Inr (md, wc)
               \<longrightarrow> doc = \<lparr>pageUrl = fallbackUrl,
                          pageTitle = titleOr (extractTitle e (html refPage)) ''Tenable API Reference'',
                          content = notFoundNote (trim inputUrl) @ cleanMarkdown md,
                          wordCount = wc\<rparr>)
         \<and> (\<not> (firstPartIsReference (pathname urlObj) \<and>
                 (\<exists>refPage md wc. downloadHTML e [trim inputUrl] fallbackUrl = Inr refPage
                    \<and> statusCode refPage = 200 \<and> convert e (html refPage) = Inr (md, wc)))
             \<longrightarrow> doc = notFoundPage (trim inputUrl))"
proof -
  let ?u = "trim inputUrl"
  from validateUrl_passes[OF assms(1)] obtain urlObj where p: "parseUrl e ?u = Some urlObj"
    by blast
  from handle404Fallback_cases[OF p, of "[?u]"] obtain doc where
    h: "handle404Fallback e [?u] ?u
          = (Some doc, if firstPartIsReference (pathname urlObj) then [fallbackUrl] else [])"
    and d: "doc = notFoundPage ?u
              \<or> (firstPartIsReference (pathname urlObj) \<and> pageUrl doc = fallbackUrl
                  \<and> (\<exists>md. content doc = notFoundNote ?u @ md))"
    by blast
  have r: "readPage e pageCache tGet tSet inputUrl
             = (Inr doc,
                LRUCache_set (snd (LRUCache_get pageCache (createCacheKey ?u) tGet))
                  (createCacheKey ?u) doc tSet,
                if firstPartIsReference (pathname urlObj) then [?u, fallbackUrl] else [?u])"
    using assms h by (simp add: readPage_def Let_def)
  have c: "\<exists>front back. content doc = front @ ?u @ back"
    using d
  proof
    assume "doc = notFoundPage ?u"
    then show ?thesis using content_notFoundPage by simp
  next
    assume "firstPartIsReference (pathname urlObj) \<and> pageUrl doc = fallbackUrl
                  \<and> (\<exists>md. content doc = notFoundNote ?u @ md)"
    then obtain md where "content doc = noteHead @ ?u @ (noteTail @ md)"
      by (auto simp: notFoundNote_def)
    then show ?thesis by blast
  qed
  have ok: "\<forall>refPage md wc.
               firstPartIsReference (pathname urlObj)
               \<and> downloadHTML e [?u] fallbackUrl = Inr refPage
               \<and> statusCode refPage = 200
               \<and> convert e (html refPage) = Inr (md, wc)
               \<longrightarrow> doc = \<lparr>pageUrl = fallbackUrl,
                          pageTitle = titleOr (extractTitle e (html refPage)) ''Tenable API Reference'',
                          content = notFoundNote ?u @ cleanMarkdown md,
                          wordCount = wc\<rparr>"
  proof (intro allI impI)
    fix refPage md wc
    assume a: "firstPartIsReference (pathname urlObj)
               \<and> downloadHTML e [?u] fallbackUrl = Inr refPage
               \<and> statusCode refPage = 200
               \<and> convert e (html refPage) = Inr (md, wc)"
    then have "fst (handle404Fallback e [?u] ?u)
           = Some \<lparr>pageUrl = fallbackUrl,
                   pageTitle = titleOr (extractTitle e (html refPage)) ''Tenable API Reference'',
                   content = notFoundNote ?u @ cleanMarkdown md,
                   wordCount = wc\<rparr>"
      using handle404Fallback_success[OF p, of "[?u]" refPage md wc] by blast
    then show "doc = \<lparr>pageUrl = fallbackUrl,
                          pageTitle = titleOr (extractTitle e (html refPage)) ''Tenable API Reference'',
                          content = notFoundNote ?u @ cleanMarkdown md,
                          wordCount = wc\<rparr>"
      unfolding h by simp
  qed
  have ko: "\<not> (firstPartIsReference (pathname urlObj) \<and>
                 (\<exists>refPage md wc. downloadHTML e [?u] fallbackUrl = Inr refPage
                    \<and> statusCode refPage = 200 \<and> convert e (html refPage) = Inr (md, wc)))
             \<longrightarrow> doc = notFoundPage ?u"
  proof
    assume "\<not> (firstPartIsReference (pathname urlObj) \<and>
                 (\<exists>refPage md wc. downloadHTML e [?u] fallbackUrl = Inr refPage
                    \<and> statusCode refPage = 200 \<and> convert e (html refPage) = Inr (md, wc)))"
    from handle404Fallback_failure[OF p this]
    show "doc = notFoundPage ?u" unfolding h by simp
  qed
  show ?thesis
    by (intro exI[of _ doc] exI[of _ urlObj] conjI p r c d ok ko)
qed

text \<open>The host \<open>nottenable.com\<close> ends with \<open>tenable.com\<close> but is no subdomain of it: the
  URL is rejected and nothing is fetched.\<close>

theorem readPage_rejects_foreign_host_witness:
  "parseUrl env404 (trim '' https://nottenable.com/reference/scans '')
     = Some \<lparr>protocol = ''https:'', hostname = ''nottenable.com'', pathname = ''/reference/scans''\<rparr>
   \<and> \<not> (\<exists>d \<in> set ALLOWED_DOMAINS.
           toLowerCase ''nottenable.com'' = d \<or> (\<exists>sub. toLowerCase ''nottenable.com'' = sub @ ''.'' @ d))
   \<and> (\<exists>msg. readPage env404 emptyPageCache 0 1 '' https://nottenable.com/reference/scans ''
          = (Inl (ValidationError msg), emptyPageCache, []))"
proof -
  let ?U = "'' https://nottenable.com/reference/scans ''"
  let ?u = "\<lparr>protocol = ''https:'', hostname = ''nottenable.com'', pathname = ''/reference/scans''\<rparr>"
  have p: "parseUrl env404 (trim ?U) = Some ?u"
    by code_simp
  have "\<not> list_ex (\<lambda>d. toLowerCase ''nottenable.com'' = d
                      \<or> endsWith (toLowerCase ''nottenable.com'') (''.'' @ d)) ALLOWED_DOMAINS"
    by code_simp
  then have n: "\<not> (\<exists>d \<in> set ALLOWED_DOMAINS.
           toLowerCase ''nottenable.com'' = d \<or> (\<exists>sub. toLowerCase ''nottenable.com'' = sub @ ''.'' @ d))"
    unfolding list_ex_iff endsWith_iff by blast
  have h: "\<forall>u. parseUrl env404 (trim ?U) = Some u \<longrightarrow>
             \<not> (\<exists>d \<in> set ALLOWED_DOMAINS.
                   toLowerCase (hostname u) = d \<or> (\<exists>sub. toLowerCase (hostname u) = sub @ ''.'' @ d))"
    using p n by simp
  from readPage_rejects_foreign_host[OF h, of emptyPageCache 0 1] p n
  show ?thesis by blast
qed

text \<open>A URL under \<open>/reference\<close> that answers 404. With a reference page that answers 200
  and converts to \<open># API\<close>, two URLs are fetched and the document is the note about the
  URL followed by \<open># API\<close>. With a reference page that answers 404 too, the document is
  the static page.\<close>

theorem readPage_404_fallback_witness:
  "validateUrl (parseUrl envReference) '' https://developer.tenable.com/reference/scans-list '' = None
   \<and> fst (LRUCache_get emptyPageCache
            (createCacheKey (trim '' https://developer.tenable.com/reference/scans-list '')) 0) = None
   \<and> downloadHTML envReference [] (trim '' https://developer.tenable.com/reference/scans-list '')
        = Inr \<lparr>html = [], finalUrl = ''https://developer.tenable.com/reference/scans-list'',
               statusCode = 404\<rparr>
   \<and> (\<exists>doc. fst (readPage envReference emptyPageCache 0 1
                    '' https://developer.tenable.com/reference/scans-list '') = Inr doc
          \<and> (\<exists>front back. content doc
                = front @ trim '' https://developer.tenable.com/reference/scans-list '' @ back))
   \<and> snd (snd (readPage envReference emptyPageCache 0 1
                 '' https://developer.tenable.com/reference/scans-list ''))
        = [trim '' https://developer.tenable.com/reference/scans-list '', fallbackUrl]
   \<and> fst (readPage envReference emptyPageCache 0 1
             '' https://developer.tenable.com/reference/scans-list '')
        = Inr \<lparr>pageUrl = fallbackUrl, pageTitle = ''Tenable API Reference'',
               content = notFoundNote (trim '' https://developer.tenable.com/reference/scans-list '')
                           @ cleanMarkdown ''# API'',
               wordCount = 1\<rparr>
   \<and> fst (readPage env404 emptyPageCache 0 1
             '' https://developer.tenable.com/reference/scans-list '')
        = Inr (notFoundPage (trim '' https://developer.tenable.com/reference/scans-list ''))"
proof -
  let ?U = "'' https://developer.tenable.com/reference/scans-list ''"
  let ?hc = "\<lparr>html = [], finalUrl = ''https://developer.tenable.com/reference/scans-list'',
               statusCode = 404\<rparr>"
  let ?ref = "\<lparr>html = ''<h1>API</h1>'', finalUrl = fallbackUrl, statusCode = 200\<rparr>"
  let ?obj = "\<lparr>protocol = ''https:'', hostname = ''developer.tenable.com'',
                  pathname = ''/reference/scans-list''\<rparr>"
  have t: "trim ?U = ''https://developer.tenable.com/reference/scans-list''"
    by code_simp
  have v: "validateUrl (parseUrl envReference) ?U = None"
    by code_simp
  have g: "fst (LRUCache_get emptyPageCache (createCacheKey (trim ?U)) 0) = None"
    by (simp add: LRUCache_get_def emptyPageCache_def newLRUCache_def)
  have d: "downloadHTML envReference [] (trim ?U) = Inr ?hc"
    unfolding t by (simp add: envReference_def fallbackUrl_def)
  have s: "statusCode ?hc = 404" by simp
  have p: "parseUrl envReference (trim ?U) = Some ?obj"
    by code_simp
  have f: "firstPartIsReference ''/reference/scans-list''"
    by code_simp
  from readPage_404_fallback[OF v g d s, of 1] obtain doc urlObj where
    pu: "parseUrl envReference (trim ?U) = Some urlObj"
    and r: "readPage envReference emptyPageCache 0 1 ?U
             = (Inr doc,
                LRUCache_set (snd (LRUCache_get emptyPageCache (createCacheKey (trim ?U)) 0))
                  (createCacheKey (trim ?U)) doc 1,
                if firstPartIsReference (pathname urlObj) then [trim ?U, fallbackUrl]
                else [trim ?U])"
    and c: "\<exists>front back. content doc = front @ trim ?U @ back"
    and ok: "\<forall>refPage md wc.
               firstPartIsReference (pathname urlObj)
               \<and> downloadHTML envReference [trim ?U] fallbackUrl = Inr refPage
               \<and> statusCode refPage = 200
               \<and> convert envReference (html refPage) = Inr (md, wc)
               \<longrightarrow> doc = \<lparr>pageUrl = fallbackUrl,
                          pageTitle = titleOr (extractTitle envReference (html refPage))
                                        ''Tenable API Reference'',
                          content = notFoundNote (trim ?U) @ cleanMarkdown md,
                          wordCount = wc\<rparr>"
    by blast
  from pu p have "urlObj = ?obj"
    by (metis option.inject)
  then have "pathname urlObj = ''/reference/scans-list''" by simp
  with f have fr: "firstPartIsReference (pathname urlObj)" by simp
  with r have r1: "fst (readPage envReference emptyPageCache 0 1 ?U) = Inr doc"
    and r2: "snd (snd (readPage envReference emptyPageCache 0 1 ?U)) = [trim ?U, fallbackUrl]"
    by simp_all
  have dl: "downloadHTML envReference [trim ?U] fallbackUrl = Inr ?ref"
    by (simp add: envReference_def)
  have cv: "convert envReference (html ?ref) = Inr (''# API'', 1)"
    by (simp add: envReference_def)
  have ti: "titleOr (extractTitle envReference (html ?ref)) ''Tenable API Reference''
              = ''Tenable API Reference''"
    by (simp add: envReference_def titleOr_def)
  have st: "statusCode ?ref = 200" by simp
  from ok[rule_format, of ?ref "''# API''" 1] fr dl st cv
  have "doc = \<lparr>pageUrl = fallbackUrl,
               pageTitle = titleOr (extractTitle envReference (html ?ref)) ''Tenable API Reference'',
               content = notFoundNote (trim ?U) @ cleanMarkdown ''# API'',
               wordCount = 1\<rparr>"
    by blast
  then have dd: "doc = \<lparr>pageUrl = fallbackUrl, pageTitle = ''Tenable API Reference'',
               content = notFoundNote (trim ?U) @ cleanMarkdown ''# API'', wordCount = 1\<rparr>"
    unfolding ti .
  have r3: "fst (readPage envReference emptyPageCache 0 1 ?U)
        = Inr \<lparr>pageUrl = fallbackUrl, pageTitle = ''Tenable API Reference'',
               content = notFoundNote (trim ?U) @ cleanMarkdown ''# API'', wordCount = 1\<rparr>"
    using r1 unfolding dd .
  have v4: "validateUrl (parseUrl env404) ?U = None"
    by code_simp
  have d4: "downloadHTML env404 [] (trim ?U) = Inr ?hc"
    unfolding t by (simp add: env404_def)
  have n4: "\<not> (firstPartIsReference (pathname (urlObj' :: URL)) \<and>
              (\<exists>refPage md wc. downloadHTML env404 [trim ?U] fallbackUrl = Inr refPage
                  \<and> statusCode refPage = 200 \<and> convert env404 (html refPage) = Inr (md, wc)))"
    for urlObj'
    by (auto simp: env404_def)
  from readPage_404_fallback[OF v4 g d4 s, of 1] obtain doc4 urlObj4 where
    pu4: "parseUrl env404 (trim ?U) = Some urlObj4"
    and r4: "readPage env404 emptyPageCache 0 1 ?U
             = (Inr doc4,
                LRUCache_set (snd (LRUCache_get emptyPageCache (createCacheKey (trim ?U)) 0))
                  (createCacheKey (trim ?U)) doc4 1,
                if firstPartIsReference (pathname urlObj4) then [trim ?U, fallbackUrl]
                else [trim ?U])"
    and ko: "\<not> (firstPartIsReference (pathname urlObj4) \<and>
                 (\<exists>refPage md wc. downloadHTML env404 [trim ?U] fallbackUrl = Inr refPage
                    \<and> statusCode refPage = 200 \<and> convert env404 (html refPage) = Inr (md, wc)))
             \<longrightarrow> doc4 = notFoundPage (trim ?U)"
    by blast
  from ko n4[of urlObj4] have "doc4 = notFoundPage (trim ?U)" by blast
  with r4 have r5: "fst (readPage env404 emptyPageCache 0 1 ?U) = Inr (notFoundPage (trim ?U))"
    by simp
  from r1 c have "\<exists>doc. fst (readPage envReference emptyPageCache 0 1 ?U) = Inr doc
          \<and> (\<exists>front back. content doc = front @ trim ?U @ back)"
    by blast
  with v g d r2 r3 r5 show ?thesis by blast
qed

text \<open>C5 as stated fails for a path outside \<open>/reference\<close>: the reference page would answer
  200, yet \<open>readPage\<close> does not attempt it. The only URL fetched is the requested one,
  and the document is the static page.\<close>

theorem readPage_404_fallback_counterexample:
  "downloadHTML envReference [] ''https://developer.tenable.com/recipes/export''
     = Inr \<lparr>html = [], finalUrl = ''https://developer.tenable.com/recipes/export'', statusCode = 404\<rparr>
   \<and> downloadHTML envReference [''https://developer.tenable.com/recipes/export''] fallbackUrl
     = Inr \<lparr>html = ''<h1>API</h1>'', finalUrl = fallbackUrl, statusCode = 200\<rparr>
   \<and> fst (readPage envReference emptyPageCache 0 1 ''https://developer.tenable.com/recipes/export'')
     = Inr (notFoundPage ''https://developer.tenable.com/recipes/export'')
   \<and> snd (snd (readPage envReference emptyPageCache 0 1 ''https://developer.tenable.com/recipes/export''))
     = [''https://developer.tenable.com/recipes/export'']"
proof -
  have a: "downloadHTML envReference [] ''https://developer.tenable.com/recipes/export''
     = Inr \<lparr>html = [], finalUrl = ''https://developer.tenable.com/recipes/export'', statusCode = 404\<rparr>"
    by (simp add: envReference_def fallbackUrl_def)
  have b: "downloadHTML envReference [''https://developer.tenable.com/recipes/export''] fallbackUrl
     = Inr \<lparr>html = ''<h1>API</h1>'', finalUrl = fallbackUrl, statusCode = 200\<rparr>"
    by (simp add: envReference_def)
  have c: "fst (readPage envReference emptyPageCache 0 1 ''https://developer.tenable.com/recipes/export'')
     = Inr (notFoundPage ''https://developer.tenable.com/recipes/export'')"
    by code_simp
  have d: "snd (snd (readPage envReference emptyPageCache 0 1 ''https://developer.tenable.com/recipes/export''))
     = [''https://developer.tenable.com/recipes/export'']"
    by code_simp
  from a b c d show ?thesis by blast
qed

section \<open>Markdown clean-up and code blocks at concrete inputs\<close>

text \<open>C7 (idempotence of \<open>cleanMarkdown\<close>) at the input \<open>a\n \n\nb\<close>. The newlines are
  collapsed first and the blanks at the ends of lines are deleted second, so the deletion
  of the blank line joins the newlines around it into a run of three, which the first
  pass leaves in its result. A second application collapses it.\<close>

theorem cleanMarkdown_not_idempotent:
  "cleanMarkdown ''a\<newline> \<newline>\<newline>b'' = ''a\<newline>\<newline>\<newline>b''
   \<and> cleanMarkdown (cleanMarkdown ''a\<newline> \<newline>\<newline>b'') = ''a\<newline>\<newline>b''"
proof -
  have a: "cleanMarkdown ''a\<newline> \<newline>\<newline>b'' = ''a\<newline>\<newline>\<newline>b''"
    by code_simp
  have b: "cleanMarkdown ''a\<newline>\<newline>\<newline>b'' = ''a\<newline>\<newline>b''"
    by code_simp
  from a b show ?thesis by simp
qed

text \<open>C1 (code-block round trip) at a page whose sample is \<open>echo $$\<close>. \<open>restoreCodeBlocks\<close>
  passes the stored markup to \<open>replace\<close> as the replacement string, where \<open>$$\<close> means one
  dollar sign: the restored sample reads \<open>echo $\<close>, so the restored markup is not the
  markup of the document. The same happens on the way through
  \<open>cleanHTMLPreservingCodeBlocks\<close>, shown with a cleaner whose result keeps the paragraph
  and the placeholder. For the same page with a sample without a dollar sign the round
  trip gives the markup of the document back.\<close>

theorem restore_alters_dollar_sample:
  "documentHTML shellPage
     = ''<html><head></head><body><p>Print the process id:</p><pre><code class='' @ [CHR 0x22] @
       ''language-bash'' @ [CHR 0x22] @ ''>echo $$</code></pre></body></html>''
   \<and> restoreCodeBlocks (fst (preserveCodeBlocks shellPage)) (snd (preserveCodeBlocks shellPage))
     = ''<html><head></head><body><p>Print the process id:</p><pre><code class='' @ [CHR 0x22] @
       ''language-bash'' @ [CHR 0x22] @ ''>echo $</code></pre></body></html>''
   \<and> cleanHTMLPreservingCodeBlocks
       (\<lambda>markup. ''<html><body><p>Print the process id:</p>__CODE_BLOCK_0__</body></html>'')
       shellPage
     = ''<html><body><p>Print the process id:</p><pre><code class='' @ [CHR 0x22] @
       ''language-bash'' @ [CHR 0x22] @ ''>echo $</code></pre></body></html>''
   \<and> restoreCodeBlocks (fst (preserveCodeBlocks plainPage)) (snd (preserveCodeBlocks plainPage))
     = documentHTML plainPage"
proof -
  have a: "documentHTML shellPage
     = ''<html><head></head><body><p>Print the process id:</p><pre><code class='' @ [CHR 0x22] @
       ''language-bash'' @ [CHR 0x22] @ ''>echo $$</code></pre></body></html>''"
    by code_simp
  have b: "restoreCodeBlocks (fst (preserveCodeBlocks shellPage)) (snd (preserveCodeBlocks shellPage))
     = ''<html><head></head><body><p>Print the process id:</p><pre><code class='' @ [CHR 0x22] @
       ''language-bash'' @ [CHR 0x22] @ ''>echo $</code></pre></body></html>''"
    by code_simp
  have c: "cleanHTMLPreservingCodeBlocks
       (\<lambda>markup. ''<html><body><p>Print the process id:</p>__CODE_BLOCK_0__</body></html>'')
       shellPage
     = ''<html><body><p>Print the process id:</p><pre><code class='' @ [CHR 0x22] @
       ''language-bash'' @ [CHR 0x22] @ ''>echo $</code></pre></body></html>''"
    by code_simp
  have d: "restoreCodeBlocks (fst (preserveCodeBlocks plainPage)) (snd (preserveCodeBlocks plainPage))
     = documentHTML plainPage"
    by code_simp
  from a b c d show ?thesis by blast
qed

end
